theory Spec2Isabelle
  imports Complex_Main
begin

section \<open>The ID3 tree inducer of id3.py\<close>

text \<open>
  A shallow embedding of the class \<open>ID3\<close> of \<^verbatim>\<open>id3.py\<close>. Every method takes the
  object (\<open>self\<close>) as its first argument and, where it mutates it, returns the new
  object. Every exception the Python can raise is a value \<open>Inl e\<close> of the result.

  Conventions.
  \<^item> A cell of the table is a string. The argument \<open>value\<close> of \<open>entropy\<close> and
    \<open>value_occurrences\<close> is a cell or a boolean, hence the type \<open>pyval\<close>.
  \<^item> A row is a dictionary from attribute names to cells: \<open>string \<rightharpoonup> string\<close>.
  \<^item> A \<open>Counter\<close> is an association list with distinct keys. Python 2 enumerates the
    keys of a dictionary and the elements of a set in an order that depends on the
    hashes; the embedding enumerates the keys of a counter in the order of first
    insertion and the elements of a set in the order \<open>remdups\<close> leaves them.
  \<^item> Python's floats are the reals here: rounding is not part of the embedding.
\<close>

subsection \<open>Values, exceptions, counters\<close>

datatype error =
  KeyError | ValueError | ZeroDivisionError | IndexError | StopIteration
  | AttributeError | RecursionError

datatype pyval = PyStr string | PyBool bool

type_synonym row = "string \<rightharpoonup> string"

type_synonym counter = "(string \<times> nat) list"

text \<open>\<^verbatim>\<open>isinstance(value, bool)\<close>\<close>

fun isinstance_bool :: "pyval \<Rightarrow> bool" where
  "isinstance_bool (PyBool b) = True"
| "isinstance_bool (PyStr x) = False"

text \<open>\<^verbatim>\<open>counts[k] += 1\<close> on a Counter: a missing key starts at 0.\<close>

fun incr :: "counter \<Rightarrow> string \<Rightarrow> counter" where
  "incr [] k = [(k, 1)]"
| "incr ((k', n) # c) k = (if k' = k then (k', n + 1) # c else (k', n) # incr c k)"

text \<open>\<^verbatim>\<open>counts[k]\<close> on a Counter: 0 for a missing key, and nothing is inserted.\<close>

definition count_of :: "counter \<Rightarrow> string \<Rightarrow> nat" where
  "count_of c k = (case map_of c k of None \<Rightarrow> 0 | Some n \<Rightarrow> n)"

text \<open>\<^verbatim>\<open>float(sum(occs.values()))\<close>\<close>

definition total_of :: "counter \<Rightarrow> real" where
  "total_of occs = real (sum_list (map snd occs))"

text \<open>Float division: a zero divisor raises.\<close>

definition py_div :: "real \<Rightarrow> real \<Rightarrow> error + real" where
  "py_div a b = (if b = 0 then Inl ZeroDivisionError else Inr (a / b))"

text \<open>\<^verbatim>\<open>math.log(x, 2)\<close>: a math domain error outside the positive numbers.\<close>

definition math_log2 :: "real \<Rightarrow> error + real" where
  "math_log2 x = (if x \<le> 0 then Inl ValueError else Inr (log 2 x))"

text \<open>
  \<^verbatim>\<open>max(xs, key=f)\<close>: the running maximum is replaced only by a strictly greater
  item, so the first of several maximal items is returned; an empty sequence raises.
\<close>

fun max_from :: "('a \<Rightarrow> 'b::linorder) \<Rightarrow> 'a \<Rightarrow> 'a list \<Rightarrow> 'a" where
  "max_from key m [] = m"
| "max_from key m (x # xs) = max_from key (if key m < key x then x else m) xs"

definition py_max :: "('a \<Rightarrow> 'b::linorder) \<Rightarrow> 'a list \<Rightarrow> error + 'a" where
  "py_max key xs = (case xs of [] \<Rightarrow> Inl ValueError | x # rest \<Rightarrow> Inr (max_from key x rest))"

subsection \<open>The decision tree nodes\<close>

text \<open>
  Modelled from the spec: the class \<open>DTree\<close> of the module \<^verbatim>\<open>dtree\<close>, which id3.py
  imports and which is not among the sources. A node holds what its constructor is
  given (\<open>attribute\<close>: the split attribute of an internal node, the label of a leaf;
  \<open>leaf\<close>, false unless given; \<open>parent_value\<close>; \<open>information_gain\<close>, the field \<open>gain_value\<close>
  here), the list handed to \<open>set_attributes\<close> (the root is annotated with the full ordered
  attribute list; the field \<open>known_attributes\<close>) and its children in the order \<open>add_child\<close>
  attached them (a node is attached as the child of its parent, keyed by its parent
  value). The DTree objects live in a store, a list in
  the order of allocation; a reference to a node is its index.

  What the attribute \<open>attributes\<close> of a node holds when \<open>remaining_attributes\<close> reads it
  is not fixed here: it is the parameter \<open>dtree_attributes\<close> of the functions below, a
  function of the store and of the reference read.
\<close>

record dtree =
  attribute :: string
  leaf :: bool
  parent_value :: "string option"
  gain_value :: "real option"
  known_attributes :: "string list option"
  children :: "nat list"

definition DTree :: "string \<Rightarrow> bool \<Rightarrow> string option \<Rightarrow> real option \<Rightarrow> dtree" where
  "DTree a l pv g =
     \<lparr>attribute = a, leaf = l, parent_value = pv, gain_value = g,
      known_attributes = None, children = []\<rparr>"

definition set_attributes :: "dtree \<Rightarrow> string list \<Rightarrow> dtree" where
  "set_attributes node attrs = node\<lparr>known_attributes := Some attrs\<rparr>"

text \<open>\<open>parent.add_child(node)\<close>, for the parent at \<open>p\<close> and the node at \<open>c\<close> of the store.\<close>

definition add_child :: "dtree list \<Rightarrow> nat \<Rightarrow> nat \<Rightarrow> dtree list" where
  "add_child store p c = store[p := (store ! p)\<lparr>children := children (store ! p) @ [c]\<rparr>]"

subsection \<open>The ID3 object\<close>

text \<open>
  The fields of an \<open>ID3\<close> object after \<open>parse_csv\<close>; \<open>distinct_values\<close> is the field
  \<open>values\<close>, \<open>dtree\<close> the reference to the root (\<open>None\<close> until the root frame sets it),
  and \<open>nodes\<close> the store of the DTree objects.
\<close>

record id3 =
  attributes :: "string list"
  all_attributes :: "string list"
  dependent :: string
  data :: "row list"
  distinct_values :: "string \<rightharpoonup> string list"
  dtree :: "nat option"
  nodes :: "dtree list"

subsection \<open>Counting\<close>

fun attr_counts_from :: "counter \<Rightarrow> row list \<Rightarrow> string \<Rightarrow> error + counter" where
  "attr_counts_from counts [] attr = Inr counts"
| "attr_counts_from counts (r # sub) attr =
     (case r attr of
        None \<Rightarrow> Inl KeyError
      | Some v \<Rightarrow> attr_counts_from (incr counts v) sub attr)"

definition attr_counts :: "row list \<Rightarrow> string \<Rightarrow> error + counter" where
  "attr_counts sub attr = attr_counts_from [] sub attr"

text \<open>
  The loop of \<open>value_occurrences\<close>. \<open>row[attr]\<close> is read first, so a row without the
  attribute raises whatever the value is; \<open>row[self.dependent]\<close> is read only for a
  row that is counted.
\<close>

fun value_occurrences_from ::
  "id3 \<Rightarrow> counter \<Rightarrow> row list \<Rightarrow> string \<Rightarrow> pyval \<Rightarrow> error + counter" where
  "value_occurrences_from self counts [] attr val = Inr counts"
| "value_occurrences_from self counts (r # sub) attr val =
     (case r attr of
        None \<Rightarrow> Inl KeyError
      | Some x \<Rightarrow>
          if PyStr x = val \<or> isinstance_bool val then
            (case r (dependent self) of
               None \<Rightarrow> Inl KeyError
             | Some d \<Rightarrow> value_occurrences_from self (incr counts d) sub attr val)
          else value_occurrences_from self counts sub attr val)"

definition value_occurrences :: "id3 \<Rightarrow> row list \<Rightarrow> string \<Rightarrow> pyval \<Rightarrow> error + counter" where
  "value_occurrences self sub attr val = value_occurrences_from self [] sub attr val"

subsection \<open>Entropy and information gain\<close>

text \<open>The loop \<^verbatim>\<open>for dv in occs\<close> of \<open>entropy\<close>, over the keys still to visit.\<close>

fun entropy_from :: "counter \<Rightarrow> real \<Rightarrow> real \<Rightarrow> string list \<Rightarrow> error + real" where
  "entropy_from occs tot e [] = Inr e"
| "entropy_from occs tot e (dv # dvs) =
     (case py_div (real (count_of occs dv)) tot of
        Inl err \<Rightarrow> Inl err
      | Inr proportion \<Rightarrow>
          (case math_log2 proportion of
             Inl err \<Rightarrow> Inl err
           | Inr lg \<Rightarrow> entropy_from occs tot (e + - (proportion * lg)) dvs))"

definition entropy :: "id3 \<Rightarrow> row list \<Rightarrow> string \<Rightarrow> pyval \<Rightarrow> error + real" where
  "entropy self sub attr val =
     (case value_occurrences self sub attr val of
        Inl err \<Rightarrow> Inl err
      | Inr occs \<Rightarrow> entropy_from occs (total_of occs) 0 (map fst occs))"

definition get_base_entropy :: "id3 \<Rightarrow> row list \<Rightarrow> error + real" where
  "get_base_entropy self sub = entropy self sub (dependent self) (PyBool True)"

text \<open>
  The loop \<^verbatim>\<open>for value in self.values[attr]\<close> of \<open>information_gain\<close>: the weight
  \<open>occs[value]/total\<close> is computed before \<open>entropy\<close> is called.
\<close>

fun information_gain_from ::
  "id3 \<Rightarrow> row list \<Rightarrow> string \<Rightarrow> counter \<Rightarrow> real \<Rightarrow> real \<Rightarrow> string list \<Rightarrow> error + real" where
  "information_gain_from self sub attr occs tot gain [] = Inr gain"
| "information_gain_from self sub attr occs tot gain (v # vs) =
     (case py_div (real (count_of occs v)) tot of
        Inl err \<Rightarrow> Inl err
      | Inr weight \<Rightarrow>
          (case entropy self sub attr (PyStr v) of
             Inl err \<Rightarrow> Inl err
           | Inr h \<Rightarrow>
               information_gain_from self sub attr occs tot (gain + - (weight * h)) vs))"

definition information_gain :: "id3 \<Rightarrow> row list \<Rightarrow> string \<Rightarrow> error + real" where
  "information_gain self sub attr =
     (case get_base_entropy self sub of
        Inl err \<Rightarrow> Inl err
      | Inr gain \<Rightarrow>
          (case attr_counts sub attr of
             Inl err \<Rightarrow> Inl err
           | Inr occs \<Rightarrow>
               (case distinct_values self attr of
                  None \<Rightarrow> Inl KeyError
                | Some vs \<Rightarrow>
                    information_gain_from self sub attr occs (total_of occs) gain vs)))"

subsection \<open>Tree construction\<close>

text \<open>
  \<open>remaining_attributes\<close>: all the attributes while there is no root; afterwards the
  attributes that are not in the \<open>attributes\<close> of the root node, whatever frame asks.
\<close>

definition remaining_attributes :: "(dtree list \<Rightarrow> nat \<Rightarrow> string list) \<Rightarrow> id3 \<Rightarrow> string list" where
  "remaining_attributes dtree_attributes self =
     (case dtree self of
        None \<Rightarrow> attributes self
      | Some r \<Rightarrow>
          filter (\<lambda>a. a \<notin> set (dtree_attributes (nodes self) r)) (attributes self))"

text \<open>\<open>filter_subset\<close>; the value is a cell or \<open>None\<close>, which no cell equals.\<close>

fun filter_subset :: "row list \<Rightarrow> string \<Rightarrow> string option \<Rightarrow> error + row list" where
  "filter_subset [] attr val = Inr []"
| "filter_subset (r # sub) attr val =
     (case r attr of
        None \<Rightarrow> Inl KeyError
      | Some x \<Rightarrow>
          (case filter_subset sub attr val of
             Inl err \<Rightarrow> Inl err
           | Inr rest \<Rightarrow> Inr (if Some x = val then r # rest else rest)))"

text \<open>
  Lines 32 to 37 of \<open>create_tree\<close>: the rows of this frame. With a subset and no parent,
  \<open>parent.attribute\<close> is read on \<open>None\<close>.
\<close>

definition frame_subset ::
  "id3 \<Rightarrow> row list option \<Rightarrow> nat option \<Rightarrow> string option \<Rightarrow> error + row list" where
  "frame_subset self sub parent pv =
     (case sub of
        None \<Rightarrow> Inr (data self)
      | Some rows \<Rightarrow>
          (case parent of
             None \<Rightarrow> Inl AttributeError
           | Some p \<Rightarrow> filter_subset rows (attribute (nodes self ! p)) pv))"

text \<open>The loop that fills \<open>igains\<close> (lines 58 to 60).\<close>

fun igains_of :: "id3 \<Rightarrow> row list \<Rightarrow> string list \<Rightarrow> error + (string \<times> real) list" where
  "igains_of self sub [] = Inr []"
| "igains_of self sub (attr # attrs) =
     (case information_gain self sub attr of
        Inl err \<Rightarrow> Inl err
      | Inr g \<Rightarrow>
          (case igains_of self sub attrs of
             Inl err \<Rightarrow> Inl err
           | Inr rest \<Rightarrow> Inr ((attr, g) # rest)))"

text \<open>
  Lines 39 to 69 of \<open>create_tree\<close>: the node of this frame. A tally with one key gives
  a leaf labelled with that key; otherwise, with no attribute remaining, a leaf
  labelled with the most common key; otherwise an internal node for the attribute of
  maximal information gain.
\<close>

definition make_node ::
  "(dtree list \<Rightarrow> nat \<Rightarrow> string list) \<Rightarrow> id3 \<Rightarrow> row list \<Rightarrow> string option \<Rightarrow> error + dtree" where
  "make_node dtree_attributes self sub pv =
     (case attr_counts sub (dependent self) of
        Inl err \<Rightarrow> Inl err
      | Inr counts \<Rightarrow>
          if length counts = 1 then Inr (DTree (fst (hd counts)) True pv None)
          else if remaining_attributes dtree_attributes self = [] then
            (case py_max (count_of counts) (map fst counts) of
               Inl err \<Rightarrow> Inl err
             | Inr most_common \<Rightarrow> Inr (DTree most_common True pv None))
          else
            (case igains_of self sub (remaining_attributes dtree_attributes self) of
               Inl err \<Rightarrow> Inl err
             | Inr igains \<Rightarrow>
                 (case py_max snd igains of
                    Inl err \<Rightarrow> Inl err
                  | Inr max_attr \<Rightarrow> Inr (DTree (fst max_attr) False pv (Some (snd max_attr))))))"

text \<open>
  Lines 71 to 76: the node is allocated at the end of the store; the root is annotated
  and becomes \<open>self.dtree\<close>, any other node is attached to its parent.
\<close>

definition link_node :: "id3 \<Rightarrow> dtree \<Rightarrow> nat option \<Rightarrow> id3" where
  "link_node self node parent =
     (case parent of
        None \<Rightarrow>
          self\<lparr>dtree := Some (length (nodes self)),
               nodes := nodes self @ [set_attributes node (attributes self)]\<rparr>
      | Some p \<Rightarrow> self\<lparr>nodes := add_child (nodes self @ [node]) p (length (nodes self))\<rparr>)"

text \<open>
  \<open>create_tree\<close>. The argument \<open>limit\<close> is the number of nested calls of
  \<open>create_tree\<close> that the recursion limit of the interpreter leaves room for: one call
  deeper raises (the \<open>RuntimeError\<close> of Python 2 for the maximum recursion depth,
  \<open>RecursionError\<close> here). \<open>create_tree_children\<close> is the loop of lines
  79 to 84 over the values still to visit, for the node at \<open>node\<close>.
\<close>

fun create_tree ::
  "(dtree list \<Rightarrow> nat \<Rightarrow> string list) \<Rightarrow> nat \<Rightarrow> id3 \<Rightarrow> row list option \<Rightarrow> nat option \<Rightarrow>
     string option \<Rightarrow> error + id3"
and create_tree_children ::
  "(dtree list \<Rightarrow> nat \<Rightarrow> string list) \<Rightarrow> nat \<Rightarrow> id3 \<Rightarrow> row list \<Rightarrow> nat \<Rightarrow>
     string list \<Rightarrow> error + id3" where
  "create_tree dtree_attributes 0 self sub parent pv = Inl RecursionError"
| "create_tree dtree_attributes (Suc limit) self sub parent pv =
     (case frame_subset self sub parent pv of
        Inl err \<Rightarrow> Inl err
      | Inr rows \<Rightarrow>
          (case make_node dtree_attributes self rows pv of
             Inl err \<Rightarrow> Inl err
           | Inr node \<Rightarrow>
               if leaf node then Inr (link_node self node parent)
               else
                 (case distinct_values self (attribute node) of
                    None \<Rightarrow> Inl KeyError
                  | Some vs \<Rightarrow>
                      create_tree_children dtree_attributes limit (link_node self node parent)
                        rows (length (nodes self)) vs)))"
| "create_tree_children dtree_attributes limit self rows node [] = Inr self"
| "create_tree_children dtree_attributes limit self rows node (v # vs) =
     (case create_tree dtree_attributes limit self (Some rows) (Some node) (Some v) of
        Inl err \<Rightarrow> Inl err
      | Inr self' \<Rightarrow> create_tree_children dtree_attributes limit self' rows node vs)"

subsection \<open>Loading and learning\<close>

text \<open>
  \<open>parse_csv\<close> with the default \<open>dependent_index\<close>, on the lines the csv reader yields:
  the first is the header, each other line is zipped with it into a dictionary (a
  later duplicate of a name wins, a longer side is cut).
\<close>

definition parse_csv :: "id3 \<Rightarrow> string list list \<Rightarrow> error + id3" where
  "parse_csv self table =
     (case table of
        [] \<Rightarrow> Inl StopIteration
      | header # lines \<Rightarrow>
          if header = [] then Inl IndexError
          else Inr (self\<lparr>attributes := filter (\<lambda>a. a \<noteq> last header) header,
                         all_attributes := header,
                         dependent := last header,
                         data := map (\<lambda>line. map_of (rev (zip header line))) lines\<rparr>))"

text \<open>\<^verbatim>\<open>set(r[attr] for r in self.data)\<close>, enumerated without repetition.\<close>

fun column :: "row list \<Rightarrow> string \<Rightarrow> error + string list" where
  "column [] attr = Inr []"
| "column (r # rs) attr =
     (case r attr of
        None \<Rightarrow> Inl KeyError
      | Some x \<Rightarrow> (case column rs attr of Inl err \<Rightarrow> Inl err | Inr xs \<Rightarrow> Inr (x # xs)))"

fun get_distinct_values_from ::
  "(string \<rightharpoonup> string list) \<Rightarrow> row list \<Rightarrow> string list \<Rightarrow> error + (string \<rightharpoonup> string list)" where
  "get_distinct_values_from vals rows [] = Inr vals"
| "get_distinct_values_from vals rows (attr # attrs) =
     (case column rows attr of
        Inl err \<Rightarrow> Inl err
      | Inr xs \<Rightarrow> get_distinct_values_from (vals(attr \<mapsto> remdups xs)) rows attrs)"

definition get_distinct_values :: "id3 \<Rightarrow> error + id3" where
  "get_distinct_values self =
     (case get_distinct_values_from Map.empty (data self) (all_attributes self) of
        Inl err \<Rightarrow> Inl err
      | Inr vals \<Rightarrow> Inr (self\<lparr>distinct_values := vals\<rparr>))"

text \<open>The object \<open>__init__\<close> leaves: no tree yet, and nothing loaded.\<close>

definition init :: id3 where
  "init = \<lparr>attributes = [], all_attributes = [], dependent = [], data = [],
           distinct_values = Map.empty, dtree = None, nodes = []\<rparr>"

definition learn ::
  "(dtree list \<Rightarrow> nat \<Rightarrow> string list) \<Rightarrow> nat \<Rightarrow> id3 \<Rightarrow> string list list \<Rightarrow> error + id3" where
  "learn dtree_attributes limit self table =
     (case parse_csv self table of
        Inl err \<Rightarrow> Inl err
      | Inr loaded \<Rightarrow>
          (case get_distinct_values loaded of
             Inl err \<Rightarrow> Inl err
           | Inr self' \<Rightarrow> create_tree dtree_attributes limit self' None None None))"

subsection \<open>Auxiliary notions and a small table\<close>

text \<open>A counter as \<open>incr\<close> builds it holds no zero count.\<close>

definition pos_counter :: "counter \<Rightarrow> bool" where
  "pos_counter c = (\<forall>n \<in> snd ` set c. 0 < n)"

text \<open>
  A table of two rows: the header \<open>B, A, Y\<close> and the lines \<open>b1, a1, y\<close> and
  \<open>b1, a2, n\<close>; \<open>example\<close> is the object that \<open>parse_csv\<close> and \<open>get_distinct_values\<close>
  leave for it.
\<close>

definition example_rows :: "row list" where
  "example_rows =
     [[''B'' \<mapsto> ''b1'', ''A'' \<mapsto> ''a1'', ''Y'' \<mapsto> ''y''],
      [''B'' \<mapsto> ''b1'', ''A'' \<mapsto> ''a2'', ''Y'' \<mapsto> ''n'']]"

definition example :: id3 where
  "example =
     \<lparr>attributes = [''B'', ''A''], all_attributes = [''B'', ''A'', ''Y''], dependent = ''Y'',
      data = example_rows,
      distinct_values = [''B'' \<mapsto> [''b1''], ''A'' \<mapsto> [''a1'', ''a2''], ''Y'' \<mapsto> [''y'', ''n'']],
      dtree = None, nodes = []\<rparr>"

subsection \<open>The store after a frame\<close>

text \<open>
  What the proofs about \<open>create_tree\<close> keep track of. \<open>node_ok\<close>: the children of the node
  at \<open>i\<close> were allocated after it and, when it is internal, their parent values are the
  distinct values of its attribute, in order. \<open>same_table\<close>: the table fields are
  untouched. \<open>frame_post\<close>: what one call of \<open>create_tree\<close> leaves; \<open>children_post\<close>: what
  the loop over the values leaves.
\<close>

definition node_ok :: "id3 \<Rightarrow> dtree list \<Rightarrow> nat \<Rightarrow> bool" where
  "node_ok self store i =
     ((\<forall>c \<in> set (children (store ! i)). i < c \<and> c < length store) \<and>
      (\<not> leaf (store ! i) \<longrightarrow>
         (\<exists>vs. distinct_values self (attribute (store ! i)) = Some vs \<and>
               map (\<lambda>c. parent_value (store ! c)) (children (store ! i)) = map Some vs)))"

definition same_table :: "id3 \<Rightarrow> id3 \<Rightarrow> bool" where
  "same_table self self' =
     (attributes self' = attributes self \<and> all_attributes self' = all_attributes self \<and>
      dependent self' = dependent self \<and> data self' = data self \<and>
      distinct_values self' = distinct_values self)"

definition frame_post :: "id3 \<Rightarrow> nat option \<Rightarrow> string option \<Rightarrow> id3 \<Rightarrow> bool" where
  "frame_post self parent pv self' =
     (same_table self self' \<and> length (nodes self) < length (nodes self') \<and>
      parent_value (nodes self' ! length (nodes self)) = pv \<and>
      (\<forall>i < length (nodes self). Some i \<noteq> parent \<longrightarrow> nodes self' ! i = nodes self ! i) \<and>
      (\<forall>p. parent = Some p \<longrightarrow>
         nodes self' ! p =
           (nodes self ! p)\<lparr>children := children (nodes self ! p) @ [length (nodes self)]\<rparr>) \<and>
      (\<forall>i. length (nodes self) \<le> i \<longrightarrow> i < length (nodes self') \<longrightarrow>
         node_ok self' (nodes self') i))"

definition children_post :: "id3 \<Rightarrow> nat \<Rightarrow> string list \<Rightarrow> id3 \<Rightarrow> bool" where
  "children_post self node vs self' =
     (same_table self self' \<and> length (nodes self) \<le> length (nodes self') \<and>
      (\<forall>i < length (nodes self). i \<noteq> node \<longrightarrow> nodes self' ! i = nodes self ! i) \<and>
      (\<exists>cs. nodes self' ! node =
               (nodes self ! node)\<lparr>children := children (nodes self ! node) @ cs\<rparr> \<and>
            map (\<lambda>c. parent_value (nodes self' ! c)) cs = map Some vs \<and>
            (\<forall>c \<in> set cs. length (nodes self) \<le> c \<and> c < length (nodes self'))) \<and>
      (\<forall>i. length (nodes self) \<le> i \<longrightarrow> i < length (nodes self') \<longrightarrow>
         node_ok self' (nodes self') i))"

text \<open>The small table as the csv reader yields it, and the tree \<open>learn\<close> builds for it.\<close>

definition example_table :: "string list list" where
  "example_table = [[''B'', ''A'', ''Y''], [''b1'', ''a1'', ''y''], [''b1'', ''a2'', ''n'']]"

definition example_tree :: "dtree list" where
  "example_tree =
     [\<lparr>attribute = ''A'', leaf = False, parent_value = None, gain_value = Some 1,
       known_attributes = Some [''B'', ''A''], children = [1, 2]\<rparr>,
      \<lparr>attribute = ''y'', leaf = True, parent_value = Some ''a1'', gain_value = None,
       known_attributes = None, children = []\<rparr>,
      \<lparr>attribute = ''n'', leaf = True, parent_value = Some ''a2'', gain_value = None,
       known_attributes = None, children = []\<rparr>]"

subsection \<open>Readings of \<open>DTree.attributes\<close>\<close>

text \<open>
  Modelled from the spec: the attribute \<open>attributes\<close> of a \<open>DTree\<close> node (class \<open>DTree\<close> of
  the module \<^verbatim>\<open>dtree\<close>, not among the sources), of which the spec says that it is the
  set of split attributes along the path from the root to the node. id3.py reads it on
  the root only (\<^verbatim>\<open>self.dtree.attributes\<close>), and only in the frames below the root, which
  exist when the root is an internal node; the path of the root is the root itself,
  so what is read is the split attribute of the root alone.
\<close>

definition own_attribute :: "dtree list \<Rightarrow> nat \<Rightarrow> string list" where
  "own_attribute store r = [attribute (store ! r)]"


subsection \<open>The frames of a run\<close>





subsection \<open>Further tables\<close>

text \<open>
  Two tables with the header \<open>A, B, Y\<close> and four rows, \<open>(a1, b1, y)\<close>, \<open>(a1, b1, n)\<close>,
  \<open>(a2, x, y)\<close>, \<open>(a2, x, n)\<close>: \<open>x\<close> is \<open>b2\<close> in the first, where \<open>B\<close> has the values
  \<open>b1, b2\<close>, and \<open>b1\<close> in the second, where \<open>B\<close> has the one value \<open>b1\<close>. \<open>split_root\<close>,
  \<open>split_inner\<close> and \<open>split_leaf\<close> are the first three nodes both runs allocate.
\<close>

definition split_rows :: "string \<Rightarrow> row list" where
  "split_rows x =
     [[''A'' \<mapsto> ''a1'', ''B'' \<mapsto> ''b1'', ''Y'' \<mapsto> ''y''],
      [''A'' \<mapsto> ''a1'', ''B'' \<mapsto> ''b1'', ''Y'' \<mapsto> ''n''],
      [''A'' \<mapsto> ''a2'', ''B'' \<mapsto> x, ''Y'' \<mapsto> ''y''],
      [''A'' \<mapsto> ''a2'', ''B'' \<mapsto> x, ''Y'' \<mapsto> ''n'']]"

definition split_table :: "string \<Rightarrow> string list \<Rightarrow> id3" where
  "split_table x vs =
     \<lparr>attributes = [''A'', ''B''], all_attributes = [''A'', ''B'', ''Y''], dependent = ''Y'',
      data = split_rows x,
      distinct_values = [''A'' \<mapsto> [''a1'', ''a2''], ''B'' \<mapsto> vs, ''Y'' \<mapsto> [''y'', ''n'']],
      dtree = None, nodes = []\<rparr>"







text \<open>
  \<open>gap_table\<close> has the header \<open>A, B, Y\<close> and the rows \<open>(a1, b1, y)\<close>, \<open>(a1, b2, n)\<close>,
  \<open>(a2, b3, y)\<close>, \<open>(a2, b3, n)\<close>. Its root splits on \<open>B\<close>; the rows of \<open>b3\<close>, \<open>gap_below\<close>, all
  have \<open>a2\<close>, so that \<open>a1\<close>, a value of the domain of \<open>A\<close>, has no row among them.
  \<open>gap_root\<close> and \<open>gap_leaf\<close> are the nodes its run allocates first.
\<close>

definition gap_rows :: "row list" where
  "gap_rows =
     [[''A'' \<mapsto> ''a1'', ''B'' \<mapsto> ''b1'', ''Y'' \<mapsto> ''y''],
      [''A'' \<mapsto> ''a1'', ''B'' \<mapsto> ''b2'', ''Y'' \<mapsto> ''n''],
      [''A'' \<mapsto> ''a2'', ''B'' \<mapsto> ''b3'', ''Y'' \<mapsto> ''y''],
      [''A'' \<mapsto> ''a2'', ''B'' \<mapsto> ''b3'', ''Y'' \<mapsto> ''n'']]"

definition gap_table :: id3 where
  "gap_table =
     \<lparr>attributes = [''A'', ''B''], all_attributes = [''A'', ''B'', ''Y''], dependent = ''Y'',
      data = gap_rows,
      distinct_values =
        [''A'' \<mapsto> [''a1'', ''a2''], ''B'' \<mapsto> [''b1'', ''b2'', ''b3''], ''Y'' \<mapsto> [''y'', ''n'']],
      dtree = None, nodes = []\<rparr>"

definition gap_below :: "row list" where
  "gap_below =
     [[''A'' \<mapsto> ''a2'', ''B'' \<mapsto> ''b3'', ''Y'' \<mapsto> ''y''],
      [''A'' \<mapsto> ''a2'', ''B'' \<mapsto> ''b3'', ''Y'' \<mapsto> ''n'']]"

definition gap_root :: "nat list \<Rightarrow> dtree" where
  "gap_root cs =
     \<lparr>attribute = ''B'', leaf = False, parent_value = None, gain_value = Some (1 / 2),
      known_attributes = Some [''A'', ''B''], children = cs\<rparr>"

definition gap_leaf :: "string \<Rightarrow> string \<Rightarrow> dtree" where
  "gap_leaf l v =
     \<lparr>attribute = l, leaf = True, parent_value = Some v, gain_value = None,
      known_attributes = None, children = []\<rparr>"

abbreviation gap_state :: "dtree list \<Rightarrow> id3" where
  "gap_state store \<equiv> gap_table\<lparr>dtree := Some 0, nodes := store\<rparr>"

section \<open>Properties\<close>

subsection \<open>Counters, entropy and gain: what succeeds\<close>

lemma pos_counter_incr: "pos_counter c \<Longrightarrow> pos_counter (incr c k)"
  by (induction c k rule: incr.induct) (auto simp: pos_counter_def)

lemma sum_incr: "sum_list (map snd (incr c k)) = Suc (sum_list (map snd c))"
  by (induction c k rule: incr.induct) auto

lemma keys_incr: "set (map fst (incr c k)) = insert k (set (map fst c))"
  by (induction c k rule: incr.induct) auto

lemma distinct_incr: "distinct (map fst c) \<Longrightarrow> distinct (map fst (incr c k))"
  by (induction c k rule: incr.induct) (auto simp: keys_incr[simplified])

lemma attr_counts_from_ok:
  "\<forall>r \<in> set sub. r attr \<noteq> None \<Longrightarrow> \<exists>c'. attr_counts_from c sub attr = Inr c'"
  by (induction sub arbitrary: c) auto

lemma attr_counts_from_keys_present:
  "attr_counts_from c sub attr = Inr c' \<Longrightarrow> \<forall>r \<in> set sub. r attr \<noteq> None"
  by (induction sub arbitrary: c) (auto split: option.splits)

lemma attr_counts_from_pos:
  "attr_counts_from c sub attr = Inr c' \<Longrightarrow> pos_counter c \<Longrightarrow> pos_counter c'"
  by (induction sub arbitrary: c) (auto split: option.splits simp: pos_counter_incr)

lemma attr_counts_from_sum:
  "attr_counts_from c sub attr = Inr c' \<Longrightarrow>
     sum_list (map snd c') = sum_list (map snd c) + length sub"
  by (induction sub arbitrary: c) (auto split: option.splits simp: sum_incr)

lemma attr_counts_from_keys:
  "attr_counts_from c sub attr = Inr c' \<Longrightarrow>
     set (map fst c') = set (map fst c) \<union> {v. \<exists>r \<in> set sub. r attr = Some v}"
proof (induction sub arbitrary: c)
  case Nil
  then show ?case by simp
next
  case (Cons r sub)
  then obtain v where v: "r attr = Some v" and rec: "attr_counts_from (incr c v) sub attr = Inr c'"
    by (auto split: option.splits)
  have "set (map fst c') = insert v (set (map fst c)) \<union> {v. \<exists>r \<in> set sub. r attr = Some v}"
    using Cons.IH[OF rec] by (simp only: keys_incr)
  with v show ?case by auto
qed

lemma attr_counts_from_distinct:
  "attr_counts_from c sub attr = Inr c' \<Longrightarrow> distinct (map fst c) \<Longrightarrow> distinct (map fst c')"
  by (induction sub arbitrary: c) (auto split: option.splits simp: distinct_incr)

lemma value_occurrences_from_filter:
  "\<forall>r \<in> set sub. r attr \<noteq> None \<Longrightarrow>
   value_occurrences_from self c sub attr val =
     attr_counts_from c
       (filter (\<lambda>r. isinstance_bool val \<or> (\<exists>x. r attr = Some x \<and> PyStr x = val)) sub)
       (dependent self)"
  by (induction sub arbitrary: c) (auto split: option.splits)

lemma value_occurrences_from_dependent:
  "value_occurrences_from self c sub (dependent self) (PyBool b) =
     attr_counts_from c sub (dependent self)"
  by (induction sub arbitrary: c) (auto split: option.splits)

lemma count_of_pos: "pos_counter c \<Longrightarrow> k \<in> set (map fst c) \<Longrightarrow> 0 < count_of c k"
proof -
  assume p: "pos_counter c" and k: "k \<in> set (map fst c)"
  then obtain n where n: "map_of c k = Some n"
    by (metis map_of_eq_None_iff not_None_eq set_map)
  then have "(k, n) \<in> set c" by (rule map_of_SomeD)
  with p have "0 < n" by (force simp: pos_counter_def)
  with n show ?thesis by (simp add: count_of_def)
qed

lemma count_of_absent: "k \<notin> set (map fst c) \<Longrightarrow> count_of c k = 0"
  by (simp add: count_of_def map_of_eq_None_iff[THEN iffD2])

lemma total_of_pos: "pos_counter c \<Longrightarrow> c \<noteq> [] \<Longrightarrow> 0 < total_of c"
  by (cases c) (auto simp: total_of_def pos_counter_def)

lemma entropy_from_ok:
  "0 < tot \<Longrightarrow> \<forall>k \<in> set ks. 0 < count_of occs k \<Longrightarrow> \<exists>h. entropy_from occs tot e ks = Inr h"
proof (induction ks arbitrary: e)
  case Nil
  then show ?case by simp
next
  case (Cons k ks)
  from Cons.prems have "0 < real (count_of occs k) / tot" by simp
  then have "\<not> real (count_of occs k) / tot \<le> 0" by simp
  with Cons show ?case by (simp add: py_div_def math_log2_def)
qed

lemma entropy_from_counter_ok:
  assumes "pos_counter occs"
  shows "\<exists>h. entropy_from occs (total_of occs) 0 (map fst occs) = Inr h"
proof (cases "occs = []")
  case True
  then show ?thesis by simp
next
  case False
  with assms have "0 < total_of occs" by (rule total_of_pos)
  moreover have "\<forall>k \<in> set (map fst occs). 0 < count_of occs k"
    using assms count_of_pos by blast
  ultimately show ?thesis by (rule entropy_from_ok)
qed

lemma pos_counter_Nil: "pos_counter []"
  by (simp add: pos_counter_def)

lemma value_occurrences_pos:
  "value_occurrences self sub attr val = Inr occs \<Longrightarrow> pos_counter occs"
proof -
  have "value_occurrences_from self c sub attr val = Inr occs \<Longrightarrow> pos_counter c \<Longrightarrow> pos_counter occs" for c
    by (induction sub arbitrary: c) (auto split: option.splits if_splits simp: pos_counter_incr)
  then show "value_occurrences self sub attr val = Inr occs \<Longrightarrow> pos_counter occs"
    unfolding value_occurrences_def using pos_counter_Nil by blast
qed

lemma value_occurrences_ok:
  assumes "\<forall>r \<in> set sub. r attr \<noteq> None \<and> r (dependent self) \<noteq> None"
  shows "\<exists>occs. value_occurrences self sub attr val = Inr occs"
proof -
  have "\<forall>r \<in> set sub. r attr \<noteq> None \<and> r (dependent self) \<noteq> None \<Longrightarrow>
        \<exists>occs. value_occurrences_from self c sub attr val = Inr occs" for c
    by (induction sub arbitrary: c) auto
  with assms show ?thesis unfolding value_occurrences_def by blast
qed

lemma entropy_ok:
  assumes "\<forall>r \<in> set sub. r attr \<noteq> None \<and> r (dependent self) \<noteq> None"
  shows "\<exists>h. entropy self sub attr val = Inr h"
proof -
  from value_occurrences_ok[OF assms] obtain occs
    where occs: "value_occurrences self sub attr val = Inr occs" by blast
  then have "pos_counter occs" by (rule value_occurrences_pos)
  then obtain h where "entropy_from occs (total_of occs) 0 (map fst occs) = Inr h"
    using entropy_from_counter_ok by blast
  with occs show ?thesis by (simp add: entropy_def)
qed

lemma information_gain_from_ok:
  assumes "\<forall>r \<in> set sub. r attr \<noteq> None \<and> r (dependent self) \<noteq> None" and "tot \<noteq> 0"
  shows "\<exists>g. information_gain_from self sub attr occs tot gain vs = Inr g"
proof (induction vs arbitrary: gain)
  case Nil
  then show ?case by simp
next
  case (Cons v vs)
  obtain h where h: "entropy self sub attr (PyStr v) = Inr h"
    using entropy_ok[OF assms(1)] by blast
  show ?case using assms(2) h Cons.IH by (simp add: py_div_def)
qed

lemma attr_counts_ok:
  "\<forall>r \<in> set sub. r attr \<noteq> None \<Longrightarrow> \<exists>c. attr_counts sub attr = Inr c"
  unfolding attr_counts_def by (rule attr_counts_from_ok)

lemma attr_counts_total:
  "attr_counts sub attr = Inr occs \<Longrightarrow> total_of occs = real (length sub)"
  unfolding attr_counts_def total_of_def by (drule attr_counts_from_sum) simp

lemma information_gain_ok:
  assumes rows: "\<forall>r \<in> set sub. r attr \<noteq> None \<and> r (dependent self) \<noteq> None"
    and ne: "sub \<noteq> []" and vs: "distinct_values self attr \<noteq> None"
  shows "\<exists>g. information_gain self sub attr = Inr g"
proof -
  from rows have dep: "\<forall>r \<in> set sub. r (dependent self) \<noteq> None \<and> r (dependent self) \<noteq> None"
    by blast
  obtain b where b: "get_base_entropy self sub = Inr b"
    unfolding get_base_entropy_def using entropy_ok[OF dep] by blast
  obtain occs where occs: "attr_counts sub attr = Inr occs"
    using attr_counts_ok rows by blast
  from ne have tot: "total_of occs \<noteq> 0"
    by (simp add: attr_counts_total[OF occs])
  obtain ds where ds: "distinct_values self attr = Some ds" using vs by blast
  obtain g where "information_gain_from self sub attr occs (total_of occs) b ds = Inr g"
    using information_gain_from_ok[OF rows tot] by blast
  with b occs ds show ?thesis by (simp add: information_gain_def)
qed

lemma value_occurrences_absent:
  assumes "\<forall>r \<in> set sub. r attr \<noteq> None" and "\<forall>r \<in> set sub. r attr \<noteq> Some v"
  shows "value_occurrences self sub attr (PyStr v) = Inr []"
proof -
  have "filter (\<lambda>r. isinstance_bool (PyStr v) \<or> (\<exists>x. r attr = Some x \<and> PyStr x = PyStr v)) sub = []"
    using assms(2) by (auto simp: filter_empty_conv)
  then show ?thesis
    unfolding value_occurrences_def value_occurrences_from_filter[OF assms(1)] by simp
qed

lemma attr_counts_absent:
  assumes "attr_counts sub attr = Inr occs" and "\<forall>r \<in> set sub. r attr \<noteq> Some v"
  shows "count_of occs v = 0"
proof -
  have "set (map fst occs) = {v. \<exists>r \<in> set sub. r attr = Some v}"
    using attr_counts_from_keys[OF assms(1)[unfolded attr_counts_def]] by simp
  with assms(2) have "v \<notin> set (map fst occs)" by blast
  then show ?thesis by (rule count_of_absent)
qed

subsection \<open>The maximum that \<open>max\<close> returns\<close>

lemma max_from_first:
  "(max_from key m xs = m \<and> (\<forall>y \<in> set xs. key y \<le> key m)) \<or>
   (\<exists>pre post. xs = pre @ max_from key m xs # post \<and> key m < key (max_from key m xs) \<and>
      (\<forall>y \<in> set pre. key y < key (max_from key m xs)) \<and>
      (\<forall>y \<in> set post. key y \<le> key (max_from key m xs)))"
proof (induction xs arbitrary: m)
  case Nil
  then show ?case by simp
next
  case (Cons x xs)
  let ?m' = "if key m < key x then x else m"
  let ?r = "max_from key ?m' xs"
  have r: "max_from key m (x # xs) = ?r" by simp
  from Cons.IH[of ?m'] consider
    (stay) "?r = ?m'" "\<forall>y \<in> set xs. key y \<le> key ?m'"
    | (move) pre post where "xs = pre @ ?r # post" "key ?m' < key ?r"
        "\<forall>y \<in> set pre. key y < key ?r" "\<forall>y \<in> set post. key y \<le> key ?r"
    by blast
  then show ?case
  proof cases
    case stay
    show ?thesis
    proof (cases "key m < key x")
      case True
      with stay have "x # xs = [] @ ?r # xs" "key m < key ?r" "\<forall>y \<in> set xs. key y \<le> key ?r"
        by simp_all
      then show ?thesis unfolding r by (metis empty_iff list.set(1))
    next
      case False
      with stay have "?r = m" "\<forall>y \<in> set (x # xs). key y \<le> key m" by auto
      then show ?thesis unfolding r by simp
    qed
  next
    case move
    have lt: "key m < key ?r" "key x < key ?r"
      using move(2) by (auto split: if_splits)
    have "x # xs = (x # pre) @ ?r # post" using move(1) by simp
    moreover have "\<forall>y \<in> set (x # pre). key y < key ?r" using move(3) lt by simp
    ultimately show ?thesis unfolding r using lt(1) move(4) by blast
  qed
qed

lemma py_max_first:
  assumes "xs \<noteq> []"
  shows "\<exists>pre r post. py_max key xs = Inr r \<and> xs = pre @ r # post \<and>
           (\<forall>y \<in> set pre. key y < key r) \<and> (\<forall>y \<in> set post. key y \<le> key r)"
proof -
  from assms obtain m rest where xs: "xs = m # rest" by (cases xs) auto
  let ?r = "max_from key m rest"
  have pm: "py_max key xs = Inr ?r" by (simp add: py_max_def xs)
  from max_from_first[of key m rest] show ?thesis
  proof
    assume "?r = m \<and> (\<forall>y \<in> set rest. key y \<le> key m)"
    then have "xs = [] @ ?r # rest" "\<forall>y \<in> set rest. key y \<le> key ?r" by (simp_all add: xs)
    with pm show ?thesis by (metis empty_iff list.set(1))
  next
    assume "\<exists>pre post. rest = pre @ ?r # post \<and> key m < key ?r \<and>
      (\<forall>y \<in> set pre. key y < key ?r) \<and> (\<forall>y \<in> set post. key y \<le> key ?r)"
    then obtain pre post where p: "rest = pre @ ?r # post" "key m < key ?r"
      "\<forall>y \<in> set pre. key y < key ?r" "\<forall>y \<in> set post. key y \<le> key ?r" by blast
    have "xs = (m # pre) @ ?r # post" using p(1) xs by simp
    moreover have "\<forall>y \<in> set (m # pre). key y < key ?r" using p(2,3) by simp
    ultimately show ?thesis using pm p(4) by blast
  qed
qed

lemma igains_of_ok:
  "\<forall>b \<in> set attrs. \<exists>h. information_gain self sub b = Inr h \<Longrightarrow>
     \<exists>ig. igains_of self sub attrs = Inr ig"
  by (induction attrs) auto

lemma igains_of_Inr:
  "igains_of self sub attrs = Inr ig \<Longrightarrow>
     map fst ig = attrs \<and> (\<forall>p \<in> set ig. information_gain self sub (fst p) = Inr (snd p))"
  by (induction attrs arbitrary: ig) (auto split: sum.splits)

lemma remaining_attributes_subset:
  "set (remaining_attributes acc self) \<subseteq> set (attributes self)"
  by (auto simp: remaining_attributes_def split: option.splits)

lemma attr_counts_Nil: "attr_counts [] attr = Inr []"
  by (simp add: attr_counts_def)

subsection \<open>The small table, evaluated\<close>

lemma example_loaded:
  "(case parse_csv init [[''B'', ''A'', ''Y''], [''b1'', ''a1'', ''y''], [''b1'', ''a2'', ''n'']] of
      Inl err \<Rightarrow> Inl err | Inr s \<Rightarrow> get_distinct_values s) = Inr example"
  by (simp add: parse_csv_def get_distinct_values_def init_def example_def example_rows_def)

lemma log2_half: "log 2 (1 / 2) = - 1"
  by (simp add: log_divide)

lemma example_base_entropy: "get_base_entropy example example_rows = Inr 1"
  by (simp add: get_base_entropy_def entropy_def value_occurrences_def example_def example_rows_def
      total_of_def count_of_def py_div_def math_log2_def log2_half)

lemma example_gain_A: "information_gain example example_rows ''A'' = Inr 1"
  by (simp add: information_gain_def get_base_entropy_def entropy_def value_occurrences_def
      attr_counts_def example_def example_rows_def
      total_of_def count_of_def py_div_def math_log2_def log2_half)

lemma example_gain_B: "information_gain example example_rows ''B'' = Inr 0"
  by (simp add: information_gain_def get_base_entropy_def entropy_def value_occurrences_def
      attr_counts_def example_def example_rows_def
      total_of_def count_of_def py_div_def math_log2_def log2_half)

lemma example_make_node:
  "make_node acc example example_rows None = Inr (DTree ''A'' False None (Some 1))"
proof -
  have "attr_counts example_rows (dependent example) = Inr [(''y'', 1), (''n'', 1)]"
    by (simp add: attr_counts_def example_def example_rows_def)
  moreover have "remaining_attributes acc example = [''B'', ''A'']"
    by (simp add: remaining_attributes_def example_def)
  ultimately show ?thesis
    by (simp add: make_node_def example_gain_A example_gain_B py_max_def)
qed

subsection \<open>No rows\<close>

lemma column_Nil_all:
  "get_distinct_values_from vals [] attrs = Inr (\<lambda>a. if a \<in> set attrs then Some [] else vals a)"
  by (induction attrs arbitrary: vals) (auto simp: fun_eq_iff)

lemma information_gain_no_rows:
  "distinct_values self a = Some [] \<Longrightarrow> information_gain self [] a = Inr 0"
  by (simp add: information_gain_def get_base_entropy_def entropy_def value_occurrences_def
      attr_counts_def)

lemma igains_of_no_rows:
  "\<forall>a \<in> set attrs. distinct_values self a = Some [] \<Longrightarrow>
     igains_of self [] attrs = Inr (map (\<lambda>a. (a, 0)) attrs)"
  by (induction attrs) (auto simp: information_gain_no_rows)

lemma max_from_all_equal:
  "\<forall>x \<in> set xs. key x = key m \<Longrightarrow> max_from key m xs = m"
  by (induction xs) auto

lemma make_node_no_rows:
  assumes "remaining_attributes acc self = a # rest"
    and "\<forall>b \<in> set (a # rest). distinct_values self b = Some []"
  shows "make_node acc self [] pv = Inr (DTree a False pv (Some 0))"
proof -
  have "igains_of self [] (a # rest) = Inr ((a, 0) # map (\<lambda>a. (a, 0)) rest)"
    using igains_of_no_rows[OF assms(2)] by simp
  moreover have "max_from snd (a, 0::real) (map (\<lambda>a. (a, 0)) rest) = (a, 0)"
    by (rule max_from_all_equal) auto
  ultimately show ?thesis
    using assms(1) by (simp add: make_node_def attr_counts_def py_max_def)
qed

subsection \<open>What a frame leaves in the store\<close>

lemma same_table_refl: "same_table s s"
  by (simp add: same_table_def)

lemma same_table_trans: "same_table s s1 \<Longrightarrow> same_table s1 s2 \<Longrightarrow> same_table s s2"
  by (simp add: same_table_def)

lemma same_table_link: "same_table s (link_node s node parent)"
  by (simp add: same_table_def link_node_def split: option.splits)

lemma make_node_fields:
  "make_node acc self sub pv = Inr node \<Longrightarrow>
     parent_value node = pv \<and> children node = [] \<and> known_attributes node = None"
  by (auto simp: make_node_def DTree_def split: sum.splits if_splits)

lemma length_link: "length (nodes (link_node s node parent)) = Suc (length (nodes s))"
  by (simp add: link_node_def add_child_def split: option.splits)

lemma link_new:
  "\<forall>p. parent = Some p \<longrightarrow> p < length (nodes s) \<Longrightarrow>
   nodes (link_node s node parent) ! length (nodes s) =
     (case parent of None \<Rightarrow> set_attributes node (attributes s) | Some p \<Rightarrow> node)"
  by (auto simp: link_node_def add_child_def nth_append split: option.splits)

lemma link_old:
  "i < length (nodes s) \<Longrightarrow> Some i \<noteq> parent \<Longrightarrow> nodes (link_node s node parent) ! i = nodes s ! i"
  by (cases parent) (simp_all add: link_node_def add_child_def nth_append nth_list_update)

lemma link_parent:
  "p < length (nodes s) \<Longrightarrow>
   nodes (link_node s node (Some p)) ! p =
     (nodes s ! p)\<lparr>children := children (nodes s ! p) @ [length (nodes s)]\<rparr>"
  by (simp add: link_node_def add_child_def nth_append)

lemma node_ok_transfer:
  assumes ok: "node_ok s1 (nodes s1) i" and i: "i < length (nodes s1)" and lo: "node < i"
    and same: "same_table s1 s'" and len: "length (nodes s1) \<le> length (nodes s')"
    and old: "\<forall>j < length (nodes s1). j \<noteq> node \<longrightarrow> nodes s' ! j = nodes s1 ! j"
  shows "node_ok s' (nodes s') i"
proof -
  have i': "nodes s' ! i = nodes s1 ! i" using old i lo by simp
  have ch: "\<forall>c \<in> set (children (nodes s1 ! i)). i < c \<and> c < length (nodes s1)"
    using ok by (simp add: node_ok_def)
  then have ch': "\<forall>c \<in> set (children (nodes s1 ! i)). nodes s' ! c = nodes s1 ! c"
    using old lo by auto
  then have m: "map (\<lambda>c. parent_value (nodes s' ! c)) (children (nodes s1 ! i)) =
             map (\<lambda>c. parent_value (nodes s1 ! c)) (children (nodes s1 ! i))"
    by simp
  have dv: "distinct_values s' = distinct_values s1" using same by (simp add: same_table_def)
  show ?thesis
    unfolding node_ok_def i' m dv using ok ch len by (auto simp: node_ok_def)
qed

lemma frame_post_leaf:
  assumes valid: "\<forall>p. parent = Some p \<longrightarrow> p < length (nodes s)"
    and node: "parent_value node = pv" "children node = []" "leaf node"
  shows "frame_post s parent pv (link_node s node parent)"
proof -
  let ?s' = "link_node s node parent"
  let ?L = "length (nodes s)"
  have new: "nodes ?s' ! ?L = (case parent of None \<Rightarrow> set_attributes node (attributes s) | Some p \<Rightarrow> node)"
    using valid by (rule link_new)
  then have f: "parent_value (nodes ?s' ! ?L) = pv" "children (nodes ?s' ! ?L) = []"
     "leaf (nodes ?s' ! ?L)"
    using node by (auto simp: set_attributes_def split: option.splits)
  have ok: "node_ok ?s' (nodes ?s') ?L" using f by (simp add: node_ok_def)
  have "\<forall>i. ?L \<le> i \<longrightarrow> i < length (nodes ?s') \<longrightarrow> node_ok ?s' (nodes ?s') i"
  proof (intro allI impI)
    fix i assume "?L \<le> i" "i < length (nodes ?s')"
    then have "i = ?L" by (simp add: length_link)
    with ok show "node_ok ?s' (nodes ?s') i" by simp
  qed
  then show ?thesis
    unfolding frame_post_def using f(1) valid
    by (simp add: same_table_link length_link link_old link_parent)
qed

lemma children_post_Nil: "children_post s node [] s"
  by (simp add: children_post_def same_table_refl)

lemma frame_post_internal:
  assumes valid: "\<forall>p. parent = Some p \<longrightarrow> p < length (nodes s)"
    and node: "parent_value node = pv" "children node = []" "\<not> leaf node"
    and vs: "distinct_values s (attribute node) = Some vs"
    and post: "children_post (link_node s node parent) (length (nodes s)) vs s'"
  shows "frame_post s parent pv s'"
proof -
  let ?s1 = "link_node s node parent"
  let ?L = "length (nodes s)"
  have new: "nodes ?s1 ! ?L = (case parent of None \<Rightarrow> set_attributes node (attributes s) | Some p \<Rightarrow> node)"
    using valid by (rule link_new)
  then have f: "parent_value (nodes ?s1 ! ?L) = pv" "children (nodes ?s1 ! ?L) = []"
     "\<not> leaf (nodes ?s1 ! ?L)" "attribute (nodes ?s1 ! ?L) = attribute node"
    using node by (auto simp: set_attributes_def split: option.splits)
  have len1: "length (nodes ?s1) = Suc ?L" by (rule length_link)
  from post obtain cs where
    st: "same_table ?s1 s'" and len: "Suc ?L \<le> length (nodes s')" and
    old: "\<forall>i < Suc ?L. i \<noteq> ?L \<longrightarrow> nodes s' ! i = nodes ?s1 ! i" and
    me: "nodes s' ! ?L = (nodes ?s1 ! ?L)\<lparr>children := children (nodes ?s1 ! ?L) @ cs\<rparr>" and
    pvs: "map (\<lambda>c. parent_value (nodes s' ! c)) cs = map Some vs" and
    rng: "\<forall>c \<in> set cs. Suc ?L \<le> c \<and> c < length (nodes s')" and
    oks: "\<forall>i. Suc ?L \<le> i \<longrightarrow> i < length (nodes s') \<longrightarrow> node_ok s' (nodes s') i"
    unfolding children_post_def len1 by blast
  have st': "same_table s s'" using same_table_link st by (rule same_table_trans)
  have dv: "distinct_values s' = distinct_values s" using st' by (simp add: same_table_def)
  have okL: "node_ok s' (nodes s') ?L"
    unfolding node_ok_def me using f rng pvs vs dv by auto
  have a: "parent_value (nodes s' ! ?L) = pv" using me f by simp
  have b: "\<forall>i < ?L. Some i \<noteq> parent \<longrightarrow> nodes s' ! i = nodes s ! i"
    using old link_old[of _ s parent node] by simp
  have c: "\<forall>p. parent = Some p \<longrightarrow>
         nodes s' ! p = (nodes s ! p)\<lparr>children := children (nodes s ! p) @ [?L]\<rparr>"
    using old valid link_parent[of _ s node] by auto
  have d: "\<forall>i. ?L \<le> i \<longrightarrow> i < length (nodes s') \<longrightarrow> node_ok s' (nodes s') i"
  proof (intro allI impI)
    fix i assume i: "?L \<le> i" "i < length (nodes s')"
    show "node_ok s' (nodes s') i"
    proof (cases "i = ?L")
      case True
      with okL show ?thesis by simp
    next
      case False
      with i oks show ?thesis by simp
    qed
  qed
  show ?thesis unfolding frame_post_def using st' len a b c d by simp
qed

lemma children_post_Cons:
  assumes node: "node < length (nodes s)"
    and first: "frame_post s (Some node) (Some v) s1"
    and rest: "children_post s1 node vs s'"
  shows "children_post s node (v # vs) s'"
proof -
  let ?L = "length (nodes s)"
  let ?L1 = "length (nodes s1)"
  from first have
    st1: "same_table s s1" and len1: "?L < ?L1" and
    pv1: "parent_value (nodes s1 ! ?L) = Some v" and
    old1: "\<forall>i < ?L. i \<noteq> node \<longrightarrow> nodes s1 ! i = nodes s ! i" and
    par1: "nodes s1 ! node = (nodes s ! node)\<lparr>children := children (nodes s ! node) @ [?L]\<rparr>" and
    ok1: "\<forall>i. ?L \<le> i \<longrightarrow> i < ?L1 \<longrightarrow> node_ok s1 (nodes s1) i"
    unfolding frame_post_def by auto
  from rest obtain cs where
    st2: "same_table s1 s'" and len2: "?L1 \<le> length (nodes s')" and
    old2: "\<forall>i < ?L1. i \<noteq> node \<longrightarrow> nodes s' ! i = nodes s1 ! i" and
    me2: "nodes s' ! node = (nodes s1 ! node)\<lparr>children := children (nodes s1 ! node) @ cs\<rparr>" and
    pvs2: "map (\<lambda>c. parent_value (nodes s' ! c)) cs = map Some vs" and
    rng2: "\<forall>c \<in> set cs. ?L1 \<le> c \<and> c < length (nodes s')" and
    ok2: "\<forall>i. ?L1 \<le> i \<longrightarrow> i < length (nodes s') \<longrightarrow> node_ok s' (nodes s') i"
    unfolding children_post_def by blast
  have a: "same_table s s'" using st1 st2 by (rule same_table_trans)
  have b: "?L \<le> length (nodes s')" using len1 len2 by simp
  have c: "\<forall>i < ?L. i \<noteq> node \<longrightarrow> nodes s' ! i = nodes s ! i"
    using old1 old2 len1 by simp
  have L: "nodes s' ! ?L = nodes s1 ! ?L" using old2 len1 node by simp
  have d: "nodes s' ! node = (nodes s ! node)\<lparr>children := children (nodes s ! node) @ (?L # cs)\<rparr>"
    using me2 par1 by simp
  have e: "map (\<lambda>c. parent_value (nodes s' ! c)) (?L # cs) = map Some (v # vs)"
    using pvs2 L pv1 by simp
  have f: "\<forall>c \<in> set (?L # cs). ?L \<le> c \<and> c < length (nodes s')"
    using rng2 len1 len2 by auto
  have g: "\<forall>i. ?L \<le> i \<longrightarrow> i < length (nodes s') \<longrightarrow> node_ok s' (nodes s') i"
  proof (intro allI impI)
    fix i assume i: "?L \<le> i" "i < length (nodes s')"
    show "node_ok s' (nodes s') i"
    proof (cases "i < ?L1")
      case True
      with i ok1 have "node_ok s1 (nodes s1) i" by simp
      then show ?thesis
        using True node i(1) st2 len2 old2 by (intro node_ok_transfer[of s1 i node s']) auto
    next
      case False
      with i ok2 show ?thesis by simp
    qed
  qed
  show ?thesis unfolding children_post_def using a b c d e f g by blast
qed

lemma create_tree_posts:
  "(\<forall>s'. create_tree acc n s sub parent pv = Inr s' \<longrightarrow>
       (\<forall>p. parent = Some p \<longrightarrow> p < length (nodes s)) \<longrightarrow> frame_post s parent pv s')"
  "(\<forall>s'. create_tree_children acc n s rows node vs = Inr s' \<longrightarrow>
       node < length (nodes s) \<longrightarrow> children_post s node vs s')"
proof (induction acc n s sub parent pv and acc n s rows node vs
    rule: create_tree_create_tree_children.induct)
  case (1 acc self sub parent pv)
  then show ?case by simp
next
  case (2 acc limit self sub parent pv)
  show ?case
  proof (intro allI impI)
    fix s'
    assume run: "create_tree acc (Suc limit) self sub parent pv = Inr s'"
      and valid: "\<forall>p. parent = Some p \<longrightarrow> p < length (nodes self)"
    from run obtain rows node where
      rows: "frame_subset self sub parent pv = Inr rows" and
      node: "make_node acc self rows pv = Inr node"
      by (auto split: sum.splits)
    note nf = make_node_fields[OF node]
    show "frame_post self parent pv s'"
    proof (cases "leaf node")
      case True
      with run rows node have "s' = link_node self node parent" by simp
      with frame_post_leaf[OF valid, of node pv] nf True show ?thesis by simp
    next
      case False
      with run rows node obtain vs where
        vs: "distinct_values self (attribute node) = Some vs" and
        loop: "create_tree_children acc limit (link_node self node parent) rows
                 (length (nodes self)) vs = Inr s'"
        by (auto split: option.splits)
      have "children_post (link_node self node parent) (length (nodes self)) vs s'"
        using "2.IH"[OF rows node False vs] loop by (simp add: length_link)
      with frame_post_internal[OF valid _ _ False vs, of pv s'] nf show ?thesis by simp
    qed
  qed
next
  case (3 acc limit self rows node)
  then show ?case by (simp add: children_post_Nil)
next
  case (4 acc limit self rows node v vs)
  show ?case
  proof (intro allI impI)
    fix s'
    assume run: "create_tree_children acc limit self rows node (v # vs) = Inr s'"
      and valid: "node < length (nodes self)"
    from run obtain s1 where
      first: "create_tree acc limit self (Some rows) (Some node) (Some v) = Inr s1" and
      rest: "create_tree_children acc limit s1 rows node vs = Inr s'"
      by (auto split: sum.splits)
    have fp: "frame_post self (Some node) (Some v) s1"
      using "4.IH"(1) first valid by simp
    then have "length (nodes self) < length (nodes s1)" by (simp add: frame_post_def)
    with valid have "node < length (nodes s1)" by simp
    with "4.IH"(2)[OF first] rest have "children_post s1 node vs s'" by simp
    with valid fp show "children_post self node (v # vs) s'" by (rule children_post_Cons)
  qed
qed

subsection \<open>The distinct values\<close>

lemma column_set:
  "column rows a = Inr xs \<Longrightarrow> set xs = {x. \<exists>r \<in> set rows. r a = Some x}"
  by (induction rows arbitrary: xs) (auto split: option.splits sum.splits)

lemma get_distinct_values_from_Some:
  "get_distinct_values_from vals rows attrs = Inr vals' \<Longrightarrow> vals' a = Some vs \<Longrightarrow>
     vals a = Some vs \<or> (distinct vs \<and> set vs = {x. \<exists>r \<in> set rows. r a = Some x})"
proof (induction attrs arbitrary: vals)
  case Nil
  then show ?case by simp
next
  case (Cons b attrs)
  from Cons.prems(1) obtain xs where xs: "column rows b = Inr xs" and
    rec: "get_distinct_values_from (vals(b \<mapsto> remdups xs)) rows attrs = Inr vals'"
    by (auto split: sum.splits)
  from Cons.IH[OF rec Cons.prems(2)] show ?case
    using column_set[OF xs] by (auto split: if_splits)
qed

lemma get_distinct_values_domain:
  assumes "get_distinct_values s = Inr s'" and "distinct_values s' a = Some vs"
  shows "distinct vs \<and> set vs = {x. \<exists>r \<in> set (data s'). r a = Some x}"
proof -
  from assms(1) obtain vals where
    v: "get_distinct_values_from Map.empty (data s) (all_attributes s) = Inr vals" and
    s': "s' = s\<lparr>distinct_values := vals\<rparr>"
    by (auto simp: get_distinct_values_def split: sum.splits)
  from get_distinct_values_from_Some[OF v, of a vs] assms(2) s' show ?thesis by simp
qed

lemma get_distinct_values_nodes:
  "get_distinct_values s = Inr s' \<Longrightarrow> nodes s' = nodes s"
  by (auto simp: get_distinct_values_def split: sum.splits)

lemma parse_csv_nodes: "parse_csv s table = Inr s' \<Longrightarrow> nodes s' = nodes s"
  by (auto simp: parse_csv_def split: list.splits if_splits)

subsection \<open>The run on the small table\<close>

lemma make_node_pure:
  "attr_counts sub (dependent self) = Inr [(l, n)] \<Longrightarrow>
     make_node acc self sub pv = Inr (DTree l True pv None)"
  by (simp add: make_node_def)

lemma example_parse:
  "parse_csv init example_table =
     Inr (example\<lparr>distinct_values := Map.empty\<rparr>)"
  by (simp add: parse_csv_def example_table_def init_def example_def example_rows_def)

lemma example_distinct_values:
  "get_distinct_values (example\<lparr>distinct_values := Map.empty\<rparr>) = Inr example"
  by (simp add: get_distinct_values_def example_def example_rows_def)

lemma example_create_tree:
  "create_tree acc (Suc (Suc limit)) example None None None =
     Inr (example\<lparr>dtree := Some 0, nodes := example_tree\<rparr>)"
proof -
  let ?root = "DTree ''A'' False None (Some 1)"
  let ?r1 = "[''B'' \<mapsto> ''b1'', ''A'' \<mapsto> ''a1'', ''Y'' \<mapsto> ''y'']"
  let ?r2 = "[''B'' \<mapsto> ''b1'', ''A'' \<mapsto> ''a2'', ''Y'' \<mapsto> ''n'']"
  let ?s1 = "example\<lparr>dtree := Some 0,
      nodes := [\<lparr>attribute = ''A'', leaf = False, parent_value = None, gain_value = Some 1,
       known_attributes = Some [''B'', ''A''], children = []\<rparr>]\<rparr>"
  let ?s2 = "example\<lparr>dtree := Some 0,
      nodes := [\<lparr>attribute = ''A'', leaf = False, parent_value = None, gain_value = Some 1,
       known_attributes = Some [''B'', ''A''], children = [Suc 0]\<rparr>,
      \<lparr>attribute = ''y'', leaf = True, parent_value = Some ''a1'', gain_value = None,
       known_attributes = None, children = []\<rparr>]\<rparr>"
  let ?s3 = "example\<lparr>dtree := Some 0, nodes := example_tree\<rparr>"
  have l1: "link_node example ?root None = ?s1"
    by (simp add: link_node_def example_def DTree_def set_attributes_def)
  have f1: "frame_subset ?s1 (Some example_rows) (Some 0) (Some ''a1'') = Inr [?r1]"
    by (simp add: frame_subset_def example_rows_def)
  have m1: "make_node acc ?s1 [?r1] (Some ''a1'') = Inr (DTree ''y'' True (Some ''a1'') None)"
    by (rule make_node_pure) (simp add: attr_counts_def example_def)
  have l2: "link_node ?s1 (DTree ''y'' True (Some ''a1'') None) (Some 0) = ?s2"
    by (simp add: link_node_def add_child_def DTree_def)
  have lf: "leaf (DTree ''y'' True (Some ''a1'') None)" "leaf (DTree ''n'' True (Some ''a2'') None)"
    by (simp_all add: DTree_def)
  have c1: "create_tree acc (Suc limit) ?s1 (Some example_rows) (Some 0) (Some ''a1'') = Inr ?s2"
    by (simp add: f1 m1 lf l2)
  have f2: "frame_subset ?s2 (Some example_rows) (Some 0) (Some ''a2'') = Inr [?r2]"
    by (simp add: frame_subset_def example_rows_def)
  have m2: "make_node acc ?s2 [?r2] (Some ''a2'') = Inr (DTree ''n'' True (Some ''a2'') None)"
    by (rule make_node_pure) (simp add: attr_counts_def example_def)
  have l3: "link_node ?s2 (DTree ''n'' True (Some ''a2'') None) (Some 0) = ?s3"
    by (simp add: link_node_def add_child_def DTree_def example_tree_def)
  have c2: "create_tree acc (Suc limit) ?s2 (Some example_rows) (Some 0) (Some ''a2'') = Inr ?s3"
    by (simp add: f2 m2 lf l3)
  have loop: "create_tree_children acc (Suc limit) ?s1 example_rows 0 [''a1'', ''a2''] = Inr ?s3"
    by (simp add: c1 c2 del: create_tree.simps)
  have f0: "frame_subset example None None None = Inr example_rows"
    by (simp add: frame_subset_def example_def)
  have d: "distinct_values example ''A'' = Some [''a1'', ''a2'']" "length (nodes example) = 0"
    by (simp_all add: example_def)
  have r: "leaf ?root = False" "attribute ?root = ''A''" by (simp_all add: DTree_def)
  show ?thesis
    by (simp add: f0 example_make_node r d l1 loop del: create_tree_children.simps)
qed

lemma example_learn:
  "learn acc (Suc (Suc limit)) init example_table =
     Inr (example\<lparr>dtree := Some 0, nodes := example_tree\<rparr>)"
  by (simp add: learn_def example_parse example_distinct_values example_create_tree
      del: create_tree.simps)

subsection \<open>The two tables, evaluated\<close>

lemma split_table_loaded:
  "(case parse_csv init
      [[''A'', ''B'', ''Y''], [''a1'', ''b1'', ''y''], [''a1'', ''b1'', ''n''],
       [''a2'', ''b2'', ''y''], [''a2'', ''b2'', ''n'']] of
      Inl err \<Rightarrow> Inl err | Inr s \<Rightarrow> get_distinct_values s) = Inr (split_table ''b2'' [''b1'', ''b2''])"
  "(case parse_csv init
      [[''A'', ''B'', ''Y''], [''a1'', ''b1'', ''y''], [''a1'', ''b1'', ''n''],
       [''a2'', ''b1'', ''y''], [''a2'', ''b1'', ''n'']] of
      Inl err \<Rightarrow> Inl err | Inr s \<Rightarrow> get_distinct_values s) = Inr (split_table ''b1'' [''b1''])"
  by (simp_all add: parse_csv_def get_distinct_values_def init_def split_table_def split_rows_def)

lemmas gain_eval = information_gain_def get_base_entropy_def entropy_def value_occurrences_def
  attr_counts_def total_of_def count_of_def py_div_def math_log2_def log2_half




subsection \<open>The two tables, frame by frame\<close>

lemma create_tree_children_append:
  "create_tree_children acc n s rows node (before @ v # after) =
     (case create_tree_children acc n s rows node before of
        Inl err \<Rightarrow> Inl err
      | Inr s' \<Rightarrow>
          (case create_tree acc n s' (Some rows) (Some node) (Some v) of
             Inl err \<Rightarrow> Inl err
           | Inr s'' \<Rightarrow> create_tree_children acc n s'' rows node after))"
  by (induction before arbitrary: s) (auto split: sum.splits)












subsection \<open>Every frame reads the same root\<close>




subsection \<open>A frame without rows\<close>

text \<open>
  In a table with rows every attribute has a value. A frame whose subset is empty
  then raises: with no attribute remaining \<open>max\<close> is taken of an empty tally, otherwise
  the first gain divides by the total 0. So no tree that \<open>create_tree\<close> returns has a
  child for a value that no row of its parent's subset has.
\<close>

lemma make_node_on_no_rows_raises:
  assumes "\<forall>a \<in> set (attributes self). \<exists>v vs. distinct_values self a = Some (v # vs)"
  shows "make_node acc self [] pv = Inl ValueError \<or> make_node acc self [] pv = Inl ZeroDivisionError"
proof (cases "remaining_attributes acc self")
  case Nil
  then show ?thesis by (simp add: make_node_def attr_counts_def py_max_def)
next
  case (Cons b bs)
  then have "b \<in> set (attributes self)" using remaining_attributes_subset[of acc self] by auto
  with assms obtain v vs where "distinct_values self b = Some (v # vs)" by blast
  then have "information_gain self [] b = Inl ZeroDivisionError"
    by (simp add: information_gain_def get_base_entropy_def entropy_def value_occurrences_def
        attr_counts_def total_of_def py_div_def)
  with Cons show ?thesis by (simp add: make_node_def attr_counts_def)
qed

lemma filter_subset_rows:
  "filter_subset rows a v = Inr sub \<Longrightarrow> sub = filter (\<lambda>r. r a = v) rows"
  by (induction rows arbitrary: sub) (auto split: option.splits sum.splits)

lemma create_tree_on_no_rows_raises:
  assumes doms: "\<forall>a \<in> set (attributes self). \<exists>v vs. distinct_values self a = Some (v # vs)"
    and parent: "p < length (nodes self)"
    and none: "\<forall>r \<in> set rows. r (attribute (nodes self ! p)) \<noteq> Some v"
  shows "\<exists>e. create_tree acc limit self (Some rows) (Some p) (Some v) = Inl e"
proof (cases limit)
  case 0
  then show ?thesis by simp
next
  case (Suc n)
  show ?thesis
  proof (cases "frame_subset self (Some rows) (Some p) (Some v)")
    case (Inl e)
    with Suc show ?thesis by simp
  next
    case (Inr sub)
    then have "sub = filter (\<lambda>r. r (attribute (nodes self ! p)) = Some v) rows"
      by (simp add: frame_subset_def filter_subset_rows)
    with none have "sub = []" by (simp add: filter_empty_conv)
    with make_node_on_no_rows_raises[OF doms, of acc "Some v"] Inr Suc show ?thesis by auto
  qed
qed

subsection \<open>Rows that agree on every attribute\<close>






lemma add_child_attribute:
  "i < length store \<Longrightarrow> attribute (add_child store p c ! i) = attribute (store ! i)"
  by (cases "p = i") (simp_all add: add_child_def)



subsection \<open>The children in a tree that \<open>learn\<close> returns\<close>

text \<open>
  When \<open>learn\<close> returns, every internal node it allocated has its children keyed, in
  order, by the distinct values of its split attribute: the list computed once by
  \<open>get_distinct_values\<close> over all the rows of the table, which has no repetition and
  holds every value of the column.
\<close>

lemma returned_internal_nodes_have_one_child_per_value:
  assumes run: "learn acc limit self table = Inr self'"
    and i: "length (nodes self) \<le> i" "i < length (nodes self')"
    and internal: "\<not> leaf (nodes self' ! i)"
  shows "\<exists>vs. distinct_values self' (attribute (nodes self' ! i)) = Some vs \<and>
           distinct vs \<and>
           set vs = {x. \<exists>r \<in> set (data self'). r (attribute (nodes self' ! i)) = Some x} \<and>
           map (\<lambda>c. parent_value (nodes self' ! c)) (children (nodes self' ! i)) = map Some vs \<and>
           distinct (children (nodes self' ! i)) \<and>
           (\<forall>c \<in> set (children (nodes self' ! i)). i < c \<and> c < length (nodes self'))"
proof -
  from run obtain s1 s2 where
    p: "parse_csv self table = Inr s1" and g: "get_distinct_values s1 = Inr s2" and
    c: "create_tree acc limit s2 None None None = Inr self'"
    by (auto simp: learn_def split: sum.splits)
  have len: "length (nodes s2) = length (nodes self)"
    using parse_csv_nodes[OF p] get_distinct_values_nodes[OF g] by simp
  have fp: "frame_post s2 None None self'"
    using create_tree_posts(1)[of acc limit s2 None None None] c by simp
  then have ok: "node_ok self' (nodes self') i" and st: "same_table s2 self'"
    using i len by (simp_all add: frame_post_def)
  from ok internal obtain vs where
    vs: "distinct_values self' (attribute (nodes self' ! i)) = Some vs" and
    m: "map (\<lambda>c. parent_value (nodes self' ! c)) (children (nodes self' ! i)) = map Some vs" and
    r: "\<forall>c \<in> set (children (nodes self' ! i)). i < c \<and> c < length (nodes self')"
    by (auto simp: node_ok_def)
  from st vs have "distinct_values s2 (attribute (nodes self' ! i)) = Some vs"
    by (simp add: same_table_def)
  from get_distinct_values_domain[OF g this] st
  have d: "distinct vs" "set vs = {x. \<exists>r \<in> set (data self'). r (attribute (nodes self' ! i)) = Some x}"
    by (simp_all add: same_table_def)
  from d(1) have "distinct (map Some vs)" by (simp add: distinct_map)
  with m have "distinct (map (\<lambda>c. parent_value (nodes self' ! c)) (children (nodes self' ! i)))"
    by simp
  then have "distinct (children (nodes self' ! i))" by (simp add: distinct_map)
  with vs d m r show ?thesis by blast
qed

subsection \<open>A value that the rows of a branch lack\<close>

lemma gap_table_loaded:
  "(case parse_csv init
      [[''A'', ''B'', ''Y''], [''a1'', ''b1'', ''y''], [''a1'', ''b2'', ''n''],
       [''a2'', ''b3'', ''y''], [''a2'', ''b3'', ''n'']] of
      Inl err \<Rightarrow> Inl err | Inr s \<Rightarrow> get_distinct_values s) = Inr gap_table"
  by (simp add: parse_csv_def get_distinct_values_def init_def gap_table_def gap_rows_def)

lemma gap_gain_root:
  "information_gain gap_table gap_rows ''A'' = Inr 0"
  "information_gain gap_table gap_rows ''B'' = Inr (1 / 2)"
  by (simp_all add: gain_eval gap_table_def gap_rows_def attr_counts_def total_of_def py_div_def
      count_of_def math_log2_def log2_half)

lemma gap_root_node:
  "make_node acc gap_table gap_rows None = Inr (DTree ''B'' False None (Some (1 / 2)))"
proof -
  have r: "remaining_attributes acc gap_table = [''A'', ''B'']"
    by (simp add: remaining_attributes_def gap_table_def)
  have d: "dependent gap_table = ''Y''" by (simp add: gap_table_def)
  have c: "attr_counts gap_rows ''Y'' = Inr [(''y'', 2), (''n'', 2)]"
    by (simp add: attr_counts_def gap_rows_def)
  show ?thesis by (simp add: make_node_def d c r gap_gain_root py_max_def)
qed

lemma gap_filter:
  "filter_subset gap_rows ''B'' (Some ''b1'') = Inr [[''A'' \<mapsto> ''a1'', ''B'' \<mapsto> ''b1'', ''Y'' \<mapsto> ''y'']]"
  "filter_subset gap_rows ''B'' (Some ''b2'') = Inr [[''A'' \<mapsto> ''a1'', ''B'' \<mapsto> ''b2'', ''Y'' \<mapsto> ''n'']]"
  "filter_subset gap_rows ''B'' (Some ''b3'') = Inr gap_below"
  "filter_subset gap_below ''A'' (Some ''a1'') = Inr []"
  by (simp_all add: gap_rows_def gap_below_def)

lemma gap_gain_below:
  "information_gain (gap_table\<lparr>dtree := d, nodes := ns\<rparr>) gap_below ''A'' = Inr 0"
  by (simp add: gain_eval gap_table_def gap_below_def attr_counts_def total_of_def py_div_def
      count_of_def math_log2_def log2_half)

lemma gap_gain_none:
  "information_gain (gap_table\<lparr>dtree := d, nodes := ns\<rparr>) [] ''A'' = Inl ZeroDivisionError"
  by (simp add: gain_eval gap_table_def attr_counts_def total_of_def py_div_def)

lemma gap_inner_node:
  assumes "ns \<noteq> []" and "attribute (ns ! 0) = ''B''"
  shows "make_node own_attribute (gap_state ns) gap_below (Some ''b3'') =
           Inr (DTree ''A'' False (Some ''b3'') (Some 0))"
proof -
  have r: "remaining_attributes own_attribute (gap_state ns) = [''A'']"
    using assms by (simp add: remaining_attributes_def own_attribute_def gap_table_def)
  have d: "dependent (gap_state ns) = ''Y''" by (simp add: gap_table_def)
  have c: "attr_counts gap_below ''Y'' = Inr [(''y'', 1), (''n'', 1)]"
    by (simp add: attr_counts_def gap_below_def)
  show ?thesis by (simp add: make_node_def d c r gap_gain_below py_max_def)
qed

lemma gap_no_rows_node:
  assumes "ns \<noteq> []" and "attribute (ns ! 0) = ''B''"
  shows "make_node own_attribute (gap_state ns) [] pv = Inl ZeroDivisionError"
proof -
  have r: "remaining_attributes own_attribute (gap_state ns) = [''A'']"
    using assms by (simp add: remaining_attributes_def own_attribute_def gap_table_def)
  show ?thesis by (simp add: make_node_def attr_counts_def r gap_gain_none)
qed

lemma gap_leaf_frame:
  assumes f: "filter_subset gap_rows ''B'' (Some v) = Inr [r]" and y: "r ''Y'' = Some l"
    and ns: "ns \<noteq> []" "ns ! 0 = gap_root cs"
  shows "create_tree acc (Suc n) (gap_state ns) (Some gap_rows) (Some 0) (Some v) =
           Inr (gap_state ((ns @ [gap_leaf l v])[0 := gap_root (cs @ [length ns])]))"
proof -
  have fs: "frame_subset (gap_state ns) (Some gap_rows) (Some 0) (Some v) = Inr [r]"
    using f ns by (simp add: frame_subset_def gap_root_def)
  have c: "attr_counts [r] (dependent (gap_state ns)) = Inr [(l, 1)]"
    using y by (simp add: attr_counts_def gap_table_def)
  have mk: "make_node acc (gap_state ns) [r] (Some v) = Inr (DTree l True (Some v) None)"
    using c by (rule make_node_pure)
  show ?thesis
    using ns by (simp add: fs mk DTree_def link_node_def add_child_def gap_leaf_def gap_root_def
        nth_append)
qed

lemma gap_frame_b3:
  assumes ns: "ns \<noteq> []" "attribute (ns ! 0) = ''B''"
  shows "create_tree own_attribute (Suc (Suc n)) (gap_state ns) (Some gap_rows) (Some 0) (Some ''b3'') =
           Inl ZeroDivisionError"
proof -
  let ?s = "gap_state ns"
  let ?node = "DTree ''A'' False (Some ''b3'') (Some 0)"
  let ?ns' = "add_child (ns @ [?node]) 0 (length ns)"
  have fs: "frame_subset ?s (Some gap_rows) (Some 0) (Some ''b3'') = Inr gap_below"
    using ns by (simp add: frame_subset_def gap_filter)
  have mk: "make_node own_attribute ?s gap_below (Some ''b3'') = Inr ?node"
    using ns by (rule gap_inner_node)
  have int: "\<not> leaf ?node" "attribute ?node = ''A''" by (simp_all add: DTree_def)
  have dv: "distinct_values ?s ''A'' = Some [''a1'', ''a2'']" by (simp add: gap_table_def)
  have link: "link_node ?s ?node (Some 0) = gap_state ?ns'" by (simp add: link_node_def)
  have len: "length ?ns' = Suc (length ns)" by (simp add: add_child_def)
  have a0: "attribute (?ns' ! 0) = ''B''"
    using add_child_attribute[of 0 "ns @ [?node]" 0 "length ns"] ns by (simp add: nth_append)
  have aL: "attribute (?ns' ! length ns) = ''A''"
    using add_child_attribute[of "length ns" "ns @ [?node]" 0 "length ns"] by (simp add: DTree_def)
  have ne: "?ns' \<noteq> []" using len by auto
  have fs': "frame_subset (gap_state ?ns') (Some gap_below) (Some (length ns)) (Some ''a1'') = Inr []"
    using aL by (simp add: frame_subset_def gap_filter)
  have mk': "make_node own_attribute (gap_state ?ns') [] (Some ''a1'') = Inl ZeroDivisionError"
    using ne a0 by (rule gap_no_rows_node)
  have n: "length (nodes ?s) = length ns" by simp
  show ?thesis
    unfolding create_tree.simps fs sum.case mk int if_False dv option.case link n
      create_tree_children.simps fs' mk'
    by (simp add: DTree_def)
qed

lemma gap_run:
  "create_tree own_attribute (Suc (Suc (Suc n))) gap_table None None None = Inl ZeroDivisionError"
proof -
  let ?node = "DTree ''B'' False None (Some (1 / 2))"
  have fs: "frame_subset gap_table None None None = Inr gap_rows"
    by (simp add: frame_subset_def gap_table_def)
  have int: "\<not> leaf ?node" "attribute ?node = ''B''" by (simp_all add: DTree_def)
  have dv: "distinct_values gap_table ''B'' = Some [''b1'', ''b2'', ''b3'']" by (simp add: gap_table_def)
  have link: "link_node gap_table ?node None = gap_state [gap_root []]"
    by (simp add: link_node_def gap_table_def gap_root_def DTree_def set_attributes_def)
  have n0: "length (nodes gap_table) = 0" by (simp add: gap_table_def)
  have b1: "create_tree own_attribute (Suc (Suc n)) (gap_state [gap_root []]) (Some gap_rows) (Some 0)
      (Some ''b1'') = Inr (gap_state [gap_root [Suc 0], gap_leaf ''y'' ''b1''])"
    using gap_leaf_frame[OF gap_filter(1), of "''y''" "[gap_root []]" "[]" own_attribute "Suc n"]
    by (simp del: create_tree.simps)
  have b2: "create_tree own_attribute (Suc (Suc n)) (gap_state [gap_root [Suc 0], gap_leaf ''y'' ''b1''])
      (Some gap_rows) (Some 0) (Some ''b2'') =
      Inr (gap_state [gap_root [Suc 0, 2], gap_leaf ''y'' ''b1'', gap_leaf ''n'' ''b2''])"
    using gap_leaf_frame[OF gap_filter(2), of "''n''" "[gap_root [Suc 0], gap_leaf ''y'' ''b1'']" "[Suc 0]"
        own_attribute "Suc n"]
    by (simp del: create_tree.simps add: numeral_2_eq_2)
  have b3: "create_tree own_attribute (Suc (Suc n))
      (gap_state [gap_root [Suc 0, 2], gap_leaf ''y'' ''b1'', gap_leaf ''n'' ''b2''])
      (Some gap_rows) (Some 0) (Some ''b3'') = Inl ZeroDivisionError"
    by (rule gap_frame_b3) (simp_all add: gap_root_def)
  have loop: "create_tree_children own_attribute (Suc (Suc n)) (gap_state [gap_root []]) gap_rows 0
      [''b1'', ''b2'', ''b3''] = Inl ZeroDivisionError"
    by (simp add: b1 b2 b3 del: create_tree.simps)
  show ?thesis
    by (subst create_tree.simps)
      (simp add: fs gap_root_node int dv link n0 loop
        del: create_tree.simps create_tree_children.simps)
qed

lemma frame_on_no_rows_raises:
  assumes doms: "\<forall>a \<in> set (attributes self). \<exists>v vs. distinct_values self a = Some (v # vs)"
    and rows: "frame_subset self sub parent pv = Inr []"
  shows "create_tree acc (Suc n) self sub parent pv = Inl ValueError \<or>
         create_tree acc (Suc n) self sub parent pv = Inl ZeroDivisionError"
  using make_node_on_no_rows_raises[OF doms, of acc pv] rows by auto

lemma gap_doms:
  "\<forall>a \<in> set (attributes (gap_state ns)). \<exists>v vs. distinct_values (gap_state ns) a = Some (v # vs)"
  by (simp add: gap_table_def)

lemma gap_gain_below_B:
  "information_gain (gap_table\<lparr>dtree := d, nodes := ns\<rparr>) gap_below ''B'' = Inr 0"
  by (simp add: gain_eval gap_table_def gap_below_def attr_counts_def total_of_def py_div_def
      count_of_def math_log2_def log2_half)

lemma gap_filter_B: "filter_subset gap_below ''B'' (Some ''b1'') = Inr []"
  by (simp add: gap_below_def)

lemma gap_remaining:
  "remaining_attributes acc (gap_state ns) \<in> {[], [''A''], [''B''], [''A'', ''B'']}"
  by (simp add: remaining_attributes_def gap_table_def)

lemma gap_below_node:
  "make_node acc (gap_state ns) gap_below (Some ''b3'') =
     (if remaining_attributes acc (gap_state ns) = [] then Inr (DTree ''y'' True (Some ''b3'') None)
      else Inr (DTree (hd (remaining_attributes acc (gap_state ns))) False (Some ''b3'') (Some 0)))"
proof -
  have d: "dependent (gap_state ns) = ''Y''" by (simp add: gap_table_def)
  have c: "attr_counts gap_below ''Y'' = Inr [(''y'', 1), (''n'', 1)]"
    by (simp add: attr_counts_def gap_below_def)
  from gap_remaining[of acc ns] show ?thesis
    by (auto simp: make_node_def d c gap_gain_below gap_gain_below_B py_max_def count_of_def)
qed

lemma gap_frame_b3_any:
  assumes ns: "ns \<noteq> []" "ns ! 0 = gap_root cs"
  shows "create_tree acc (Suc (Suc n)) (gap_state ns) (Some gap_rows) (Some 0) (Some ''b3'') =
           Inr (gap_state ((ns @ [gap_leaf ''y'' ''b3''])[0 := gap_root (cs @ [length ns])])) \<or>
         create_tree acc (Suc (Suc n)) (gap_state ns) (Some gap_rows) (Some 0) (Some ''b3'') =
           Inl ValueError \<or>
         create_tree acc (Suc (Suc n)) (gap_state ns) (Some gap_rows) (Some 0) (Some ''b3'') =
           Inl ZeroDivisionError"
proof (cases "remaining_attributes acc (gap_state ns) = []")
  case True
  have fs: "frame_subset (gap_state ns) (Some gap_rows) (Some 0) (Some ''b3'') = Inr gap_below"
    using ns by (simp add: frame_subset_def gap_filter gap_root_def)
  have mk: "make_node acc (gap_state ns) gap_below (Some ''b3'') = Inr (DTree ''y'' True (Some ''b3'') None)"
    using True by (simp add: gap_below_node)
  have "create_tree acc (Suc (Suc n)) (gap_state ns) (Some gap_rows) (Some 0) (Some ''b3'') =
           Inr (gap_state ((ns @ [gap_leaf ''y'' ''b3''])[0 := gap_root (cs @ [length ns])]))"
    using ns by (simp add: fs mk DTree_def link_node_def add_child_def gap_leaf_def gap_root_def
        nth_append)
  then show ?thesis by simp
next
  case False
  let ?s = "gap_state ns"
  let ?x = "hd (remaining_attributes acc ?s)"
  let ?node = "DTree ?x False (Some ''b3'') (Some 0)"
  let ?ns' = "add_child (ns @ [?node]) 0 (length ns)"
  have x: "?x = ''A'' \<or> ?x = ''B''" using gap_remaining[of acc ns] False by auto
  have fs: "frame_subset ?s (Some gap_rows) (Some 0) (Some ''b3'') = Inr gap_below"
    using ns by (simp add: frame_subset_def gap_filter gap_root_def)
  have mk: "make_node acc ?s gap_below (Some ''b3'') = Inr ?node"
    using False by (simp add: gap_below_node)
  have int: "\<not> leaf ?node" "attribute ?node = ?x" by (simp_all add: DTree_def)
  have link: "link_node ?s ?node (Some 0) = gap_state ?ns'" by (simp add: link_node_def)
  have aL: "attribute (?ns' ! length ns) = ?x"
    using add_child_attribute[of "length ns" "ns @ [?node]" 0 "length ns"] by (simp add: DTree_def)
  obtain v vs where dv: "distinct_values gap_table ?x = Some (v # vs)"
    and none: "filter_subset gap_below ?x (Some v) = Inr []"
    using x by (auto simp: gap_table_def gap_filter gap_filter_B)
  have fs': "frame_subset (gap_state ?ns') (Some gap_below) (Some (length ns)) (Some v) = Inr []"
    using aL none by (simp add: frame_subset_def)
  have n: "length (nodes ?s) = length ns" by simp
  have run: "create_tree acc (Suc (Suc n)) ?s (Some gap_rows) (Some 0) (Some ''b3'') =
      (case create_tree acc (Suc n) (gap_state ?ns') (Some gap_below) (Some (length ns)) (Some v) of
         Inl err \<Rightarrow> Inl err
       | Inr s' \<Rightarrow> create_tree_children acc (Suc n) s' gap_below (length ns) vs)"
    by (subst create_tree.simps)
      (simp add: fs mk int dv link del: create_tree.simps)
  from frame_on_no_rows_raises[OF gap_doms fs', of acc n]
  show ?thesis unfolding run by auto
qed

lemma gap_learn_any:
  "learn acc (Suc (Suc (Suc n))) init
     [[''A'', ''B'', ''Y''], [''a1'', ''b1'', ''y''], [''a1'', ''b2'', ''n''],
      [''a2'', ''b3'', ''y''], [''a2'', ''b3'', ''n'']] =
   create_tree acc (Suc (Suc (Suc n))) gap_table None None None"
  using gap_table_loaded by (auto simp: learn_def split: sum.splits simp del: create_tree.simps)

lemma gap_run_any:
  "create_tree acc (Suc (Suc (Suc n))) gap_table None None None =
     Inr (gap_state [gap_root [Suc 0, 2, 3], gap_leaf ''y'' ''b1'', gap_leaf ''n'' ''b2'',
       gap_leaf ''y'' ''b3'']) \<or>
   create_tree acc (Suc (Suc (Suc n))) gap_table None None None = Inl ValueError \<or>
   create_tree acc (Suc (Suc (Suc n))) gap_table None None None = Inl ZeroDivisionError"
proof -
  let ?node = "DTree ''B'' False None (Some (1 / 2))"
  let ?S3 = "gap_state [gap_root [Suc 0, 2], gap_leaf ''y'' ''b1'', gap_leaf ''n'' ''b2'']"
  have fs: "frame_subset gap_table None None None = Inr gap_rows"
    by (simp add: frame_subset_def gap_table_def)
  have int: "\<not> leaf ?node" "attribute ?node = ''B''" by (simp_all add: DTree_def)
  have dv: "distinct_values gap_table ''B'' = Some [''b1'', ''b2'', ''b3'']" by (simp add: gap_table_def)
  have link: "link_node gap_table ?node None = gap_state [gap_root []]"
    by (simp add: link_node_def gap_table_def gap_root_def DTree_def set_attributes_def)
  have n0: "length (nodes gap_table) = 0" by (simp add: gap_table_def)
  have b1: "create_tree acc (Suc (Suc n)) (gap_state [gap_root []]) (Some gap_rows) (Some 0)
      (Some ''b1'') = Inr (gap_state [gap_root [Suc 0], gap_leaf ''y'' ''b1''])"
    using gap_leaf_frame[OF gap_filter(1), of "''y''" "[gap_root []]" "[]" acc "Suc n"]
    by (simp del: create_tree.simps)
  have b2: "create_tree acc (Suc (Suc n)) (gap_state [gap_root [Suc 0], gap_leaf ''y'' ''b1''])
      (Some gap_rows) (Some 0) (Some ''b2'') = Inr ?S3"
    using gap_leaf_frame[OF gap_filter(2), of "''n''" "[gap_root [Suc 0], gap_leaf ''y'' ''b1'']" "[Suc 0]"
        acc "Suc n"]
    by (simp del: create_tree.simps add: numeral_2_eq_2)
  have run: "create_tree acc (Suc (Suc (Suc n))) gap_table None None None =
      create_tree acc (Suc (Suc n)) ?S3 (Some gap_rows) (Some 0) (Some ''b3'')"
    by (subst create_tree.simps)
      (simp add: fs gap_root_node int dv link n0 b1 b2 del: create_tree.simps split: sum.splits)
  from gap_frame_b3_any[of "[gap_root [Suc 0, 2], gap_leaf ''y'' ''b1'', gap_leaf ''n'' ''b2'']"
      "[Suc 0, 2]" acc n]
  show ?thesis unfolding run by (simp del: create_tree.simps add: numeral_3_eq_3)
qed

lemma gap_learn_own_attribute:
  "learn own_attribute 3 init
     [[''A'', ''B'', ''Y''], [''a1'', ''b1'', ''y''], [''a1'', ''b2'', ''n''],
      [''a2'', ''b3'', ''y''], [''a2'', ''b3'', ''n'']] = Inl ZeroDivisionError"
  using gap_learn_any[of own_attribute 0] gap_run[of 0]
  by (simp add: numeral_3_eq_3 del: create_tree.simps)

section \<open>The claims\<close>

text \<open>
  C3, as amended. The test of \<open>value_occurrences\<close> is \<^verbatim>\<open>isinstance(value, bool)\<close>:
  for a boolean value, \<open>True\<close> or \<open>False\<close>, every row of the subset is counted whatever
  its cell for the attribute; for any other value exactly the rows whose cell for the
  attribute equals the value are counted, and \<open>entropy\<close> is then the entropy of those
  rows taken whole. (Every row is to hold the attribute: \<open>row[attr]\<close> is read first.)
\<close>

theorem value_occurrences_counts_rows:
  assumes "\<forall>r \<in> set sub. r attr \<noteq> None"
  shows "(isinstance_bool val \<longrightarrow>
            value_occurrences self sub attr val = attr_counts sub (dependent self)) \<and>
         (\<not> isinstance_bool val \<longrightarrow>
            value_occurrences self sub attr val =
              attr_counts (filter (\<lambda>r. \<exists>x. r attr = Some x \<and> PyStr x = val) sub) (dependent self) \<and>
            entropy self sub attr val =
              entropy self (filter (\<lambda>r. \<exists>x. r attr = Some x \<and> PyStr x = val) sub) attr (PyBool True))"
proof (intro conjI impI)
  assume "isinstance_bool val"
  then show "value_occurrences self sub attr val = attr_counts sub (dependent self)"
    unfolding value_occurrences_def attr_counts_def value_occurrences_from_filter[OF assms]
    by simp
next
  let ?rows = "filter (\<lambda>r. \<exists>x. r attr = Some x \<and> PyStr x = val) sub"
  assume nb: "\<not> isinstance_bool val"
  then show vo: "value_occurrences self sub attr val = attr_counts ?rows (dependent self)"
    unfolding value_occurrences_def attr_counts_def value_occurrences_from_filter[OF assms]
    by simp
  have "\<forall>r \<in> set ?rows. r attr \<noteq> None" using assms by simp
  then have "value_occurrences self ?rows attr (PyBool True) = attr_counts ?rows (dependent self)"
    unfolding value_occurrences_def attr_counts_def
    by (simp add: value_occurrences_from_filter)
  with vo show "entropy self sub attr val = entropy self ?rows attr (PyBool True)"
    by (simp add: entropy_def)
qed

text \<open>C3, an instance: under \<open>False\<close> both rows of the small table count, under \<open>a2\<close> one.\<close>

theorem value_occurrences_counts_rows_witness:
  "value_occurrences example example_rows ''A'' (PyBool False) = Inr [(''y'', 1), (''n'', 1)] \<and>
   value_occurrences example example_rows ''A'' (PyStr ''a2'') = Inr [(''n'', 1)]"
  using value_occurrences_counts_rows[of example_rows "''A''" "PyBool False" example]
    value_occurrences_counts_rows[of example_rows "''A''" "PyStr ''a2''" example]
  by (simp add: example_def example_rows_def attr_counts_def)

text \<open>
  C3 as stated fails at the value \<open>False\<close>: it is another value than \<open>True\<close>, no row
  has a cell equal to it, and yet every row is counted.
\<close>

theorem value_False_counts_every_row:
  "filter (\<lambda>r. \<exists>x. r ''A'' = Some x \<and> PyStr x = PyBool False) example_rows = [] \<and>
   value_occurrences example example_rows ''A'' (PyBool False) = Inr [(''y'', 1), (''n'', 1)]"
  by (simp add: example_def example_rows_def value_occurrences_def)

text \<open>
  C5. In a frame whose tally has more than one dependent value and where an attribute
  remains, the node made is internal; its attribute is the remaining attribute of
  maximal information gain over the rows of the frame, the first such in the order of
  \<open>remaining_attributes\<close>, which lists attributes of the object in their column order:
  every attribute before it has a strictly smaller gain, every attribute after it a
  gain not greater; and the node records that gain. (The rows hold every attribute
  and every attribute has its distinct values.)
\<close>

theorem make_node_splits_on_first_maximal_gain:
  assumes counts: "attr_counts sub (dependent self) = Inr counts"
    and many: "1 < length counts"
    and eligible: "remaining_attributes acc self \<noteq> []"
    and rows: "\<forall>r \<in> set sub. \<forall>a \<in> set (attributes self). r a \<noteq> None"
    and doms: "\<forall>a \<in> set (attributes self). distinct_values self a \<noteq> None"
  shows "\<exists>pre a post g keep.
           remaining_attributes acc self = filter keep (attributes self) \<and>
           remaining_attributes acc self = pre @ a # post \<and>
           make_node acc self sub pv = Inr (DTree a False pv (Some g)) \<and>
           information_gain self sub a = Inr g \<and>
           (\<forall>b \<in> set pre. \<exists>h. information_gain self sub b = Inr h \<and> h < g) \<and>
           (\<forall>b \<in> set post. \<exists>h. information_gain self sub b = Inr h \<and> h \<le> g)"
proof -
  let ?rem = "remaining_attributes acc self"
  have ne: "sub \<noteq> []" using counts many by (auto simp: attr_counts_Nil)
  have dep: "\<forall>r \<in> set sub. r (dependent self) \<noteq> None"
    using counts unfolding attr_counts_def by (rule attr_counts_from_keys_present)
  have "\<forall>b \<in> set ?rem. \<exists>h. information_gain self sub b = Inr h"
  proof
    fix b assume "b \<in> set ?rem"
    then have b: "b \<in> set (attributes self)" using remaining_attributes_subset by blast
    with rows dep have "\<forall>r \<in> set sub. r b \<noteq> None \<and> r (dependent self) \<noteq> None" by blast
    moreover from doms b have "distinct_values self b \<noteq> None" by blast
    ultimately show "\<exists>h. information_gain self sub b = Inr h"
      using ne by (intro information_gain_ok)
  qed
  then obtain ig where ig: "igains_of self sub ?rem = Inr ig"
    using igains_of_ok by blast
  note props = igains_of_Inr[OF ig]
  from props eligible have "ig \<noteq> []" by auto
  from py_max_first[OF this, of snd] obtain pre' r post' where
    m: "py_max snd ig = Inr r" and split: "ig = pre' @ r # post'" and
    before: "\<forall>y \<in> set pre'. snd y < snd r" and after: "\<forall>y \<in> set post'. snd y \<le> snd r"
    by blast
  have node: "make_node acc self sub pv = Inr (DTree (fst r) False pv (Some (snd r)))"
    using counts many eligible ig m by (simp add: make_node_def)
  have rem: "?rem = map fst pre' @ fst r # map fst post'"
    using props split by auto
  have all: "\<forall>p \<in> set ig. information_gain self sub (fst p) = Inr (snd p)"
    using props by blast
  have "information_gain self sub (fst r) = Inr (snd r)" using all split by simp
  moreover have "\<forall>b \<in> set (map fst pre'). \<exists>h. information_gain self sub b = Inr h \<and> h < snd r"
    using all split before by auto
  moreover have "\<forall>b \<in> set (map fst post'). \<exists>h. information_gain self sub b = Inr h \<and> h \<le> snd r"
    using all split after by auto
  moreover have "\<exists>keep. ?rem = filter keep (attributes self)"
  proof (cases "dtree self")
    case None
    then have "?rem = filter (\<lambda>a. True) (attributes self)"
      by (simp add: remaining_attributes_def)
    then show ?thesis by blast
  next
    case (Some r)
    then show ?thesis by (auto simp: remaining_attributes_def)
  qed
  ultimately show ?thesis using rem node by blast
qed

text \<open>C5, an instance: in the small table \<open>A\<close>, of gain 1, wins over \<open>B\<close>, of gain 0, which comes first.\<close>

theorem make_node_splits_on_first_maximal_gain_witness:
  "(\<exists>pre a post g keep.
     remaining_attributes (\<lambda>store r. []) example = filter keep (attributes example) \<and>
     remaining_attributes (\<lambda>store r. []) example = pre @ a # post \<and>
     make_node (\<lambda>store r. []) example example_rows None = Inr (DTree a False None (Some g)) \<and>
     information_gain example example_rows a = Inr g \<and>
     (\<forall>b \<in> set pre. \<exists>h. information_gain example example_rows b = Inr h \<and> h < g) \<and>
     (\<forall>b \<in> set post. \<exists>h. information_gain example example_rows b = Inr h \<and> h \<le> g)) \<and>
   make_node (\<lambda>store r. []) example example_rows None = Inr (DTree ''A'' False None (Some 1))"
proof -
  have counts: "attr_counts example_rows (dependent example) = Inr [(''y'', 1), (''n'', 1)]"
    by (simp add: attr_counts_def example_def example_rows_def)
  have many: "1 < length [(''y'', 1::nat), (''n'', 1)]" by simp
  have eligible: "remaining_attributes (\<lambda>store r. []) example \<noteq> []"
    by (simp add: remaining_attributes_def example_def)
  have rows: "\<forall>r \<in> set example_rows. \<forall>a \<in> set (attributes example). r a \<noteq> None"
    by (simp add: example_def example_rows_def)
  have doms: "\<forall>a \<in> set (attributes example). distinct_values example a \<noteq> None"
    by (simp add: example_def)
  show ?thesis
    using make_node_splits_on_first_maximal_gain[OF counts many eligible rows doms]
      example_make_node
    by blast
qed

text \<open>
  C6. On a subset that is not empty, whose rows hold the attribute and the dependent
  attribute, \<open>information_gain\<close> returns a number: no exception. A value of the
  attribute's domain that no row of the subset has weighs \<open>0/total = 0\<close>, its entropy is
  that of an empty tally, 0, with no division and no logarithm taken, and the step of
  the loop for it leaves the gain as it was.
\<close>

theorem information_gain_never_raises:
  assumes rows: "\<forall>r \<in> set sub. r attr \<noteq> None \<and> r (dependent self) \<noteq> None"
    and ne: "sub \<noteq> []" and vs: "distinct_values self attr \<noteq> None"
  shows "(\<exists>g. information_gain self sub attr = Inr g) \<and>
         (\<forall>v occs gain rest.
            attr_counts sub attr = Inr occs \<and> (\<forall>r \<in> set sub. r attr \<noteq> Some v) \<longrightarrow>
              py_div (real (count_of occs v)) (total_of occs) = Inr 0 \<and>
              entropy self sub attr (PyStr v) = Inr 0 \<and>
              information_gain_from self sub attr occs (total_of occs) gain (v # rest) =
                information_gain_from self sub attr occs (total_of occs) gain rest)"
proof (intro conjI allI impI)
  show "\<exists>g. information_gain self sub attr = Inr g"
    using rows ne vs by (rule information_gain_ok)
next
  fix v occs gain rest
  assume a: "attr_counts sub attr = Inr occs \<and> (\<forall>r \<in> set sub. r attr \<noteq> Some v)"
  then have c0: "count_of occs v = 0" using attr_counts_absent by blast
  from a have "total_of occs = real (length sub)" using attr_counts_total by blast
  with ne have tot: "total_of occs \<noteq> 0" by simp
  show w: "py_div (real (count_of occs v)) (total_of occs) = Inr 0"
    using c0 tot by (simp add: py_div_def)
  have "value_occurrences self sub attr (PyStr v) = Inr []"
    using value_occurrences_absent rows a by blast
  then show h: "entropy self sub attr (PyStr v) = Inr 0"
    by (simp add: entropy_def)
  show "information_gain_from self sub attr occs (total_of occs) gain (v # rest) =
          information_gain_from self sub attr occs (total_of occs) gain rest"
    using w h by simp
qed

text \<open>C6, an instance: the gain of \<open>A\<close> in the small table, and a value \<open>a3\<close> that no row has.\<close>

theorem information_gain_never_raises_witness:
  "(\<exists>g. information_gain example example_rows ''A'' = Inr g) \<and>
   entropy (example\<lparr>distinct_values := [''A'' \<mapsto> [''a1'', ''a2'', ''a3'']]\<rparr>) example_rows ''A'' (PyStr ''a3'') = Inr 0"
proof -
  let ?s = "example\<lparr>distinct_values := [''A'' \<mapsto> [''a1'', ''a2'', ''a3'']]\<rparr>"
  have occs: "attr_counts example_rows ''A'' = Inr [(''a1'', 1), (''a2'', 1)]"
    by (simp add: attr_counts_def example_rows_def)
  have absent: "\<forall>r \<in> set example_rows. r ''A'' \<noteq> Some ''a3''"
    by (simp add: example_rows_def)
  have h1: "\<forall>r \<in> set example_rows. r ''A'' \<noteq> None \<and> r (dependent example) \<noteq> None"
    by (simp add: example_rows_def example_def)
  have h1': "\<forall>r \<in> set example_rows. r ''A'' \<noteq> None \<and> r (dependent ?s) \<noteq> None"
    by (simp add: example_rows_def example_def)
  have h2: "example_rows \<noteq> []" by (simp add: example_rows_def)
  have h3: "distinct_values example ''A'' \<noteq> None" by (simp add: example_def)
  have h3': "distinct_values ?s ''A'' \<noteq> None" by simp
  show ?thesis
    using information_gain_never_raises[OF h1 h2 h3] information_gain_never_raises[OF h1' h2 h3']
      occs absent by blast
qed

text \<open>
  C10. With the value \<open>True\<close> the attribute handed to \<open>entropy\<close> does not matter: for
  two attributes that every row of the subset holds the two entropies are equal, and
  both are \<open>get_base_entropy\<close> of the subset.
\<close>

theorem base_entropy_ignores_attribute:
  assumes "\<forall>r \<in> set sub. r a \<noteq> None \<and> r b \<noteq> None"
  shows "entropy self sub a (PyBool True) = entropy self sub b (PyBool True) \<and>
         get_base_entropy self sub = entropy self sub a (PyBool True)"
proof -
  have a: "value_occurrences self sub a (PyBool True) = attr_counts sub (dependent self)"
    unfolding value_occurrences_def attr_counts_def
    using assms by (simp add: value_occurrences_from_filter)
  have b: "value_occurrences self sub b (PyBool True) = attr_counts sub (dependent self)"
    unfolding value_occurrences_def attr_counts_def
    using assms by (simp add: value_occurrences_from_filter)
  have d: "value_occurrences self sub (dependent self) (PyBool True) = attr_counts sub (dependent self)"
    unfolding value_occurrences_def attr_counts_def
    by (rule value_occurrences_from_dependent)
  show ?thesis by (simp add: entropy_def get_base_entropy_def a b d)
qed

text \<open>C10, an instance: the attributes \<open>A\<close> and \<open>B\<close> of the small table.\<close>

theorem base_entropy_ignores_attribute_witness:
  "entropy example example_rows ''A'' (PyBool True) = entropy example example_rows ''B'' (PyBool True) \<and>
   get_base_entropy example example_rows = entropy example example_rows ''A'' (PyBool True)"
  using base_entropy_ignores_attribute[of example_rows "''A''" "''B''" example]
  by (simp add: example_rows_def)

text \<open>
  C2, as amended. There is no emptiness check. On a table with a header and no row,
  with at least one independent attribute, \<open>learn\<close> on a fresh object returns without
  any exception: every gain is 0 (the loops over the rows and over the empty domains
  are not entered), the root is an internal node for the first independent attribute
  with gain 0, and it has no child, the domain of its attribute being empty.
\<close>

theorem learn_on_no_rows:
  assumes fresh: "dtree self = None"
    and attrs: "filter (\<lambda>a. a \<noteq> last header) header = a # rest"
  shows "learn acc (Suc limit) self [header] =
           Inr (self\<lparr>attributes := a # rest, all_attributes := header,
                      dependent := last header, data := [],
                      distinct_values := (\<lambda>b. if b \<in> set header then Some [] else None),
                      dtree := Some (length (nodes self)),
                      nodes := nodes self @
                        [\<lparr>attribute = a, leaf = False, parent_value = None,
                          gain_value = Some 0, known_attributes = Some (a # rest),
                          children = []\<rparr>]\<rparr>)"
proof -
  let ?vals = "\<lambda>b. if b \<in> set header then Some [] else None"
  let ?s = "self\<lparr>attributes := a # rest, all_attributes := header,
                  dependent := last header, data := [], distinct_values := ?vals\<rparr>"
  have ne: "header \<noteq> []" using attrs by auto
  have p: "parse_csv self [header] =
             Inr (self\<lparr>attributes := a # rest, all_attributes := header,
                        dependent := last header, data := []\<rparr>)"
    using ne attrs by (simp add: parse_csv_def)
  have g: "get_distinct_values (self\<lparr>attributes := a # rest, all_attributes := header,
                        dependent := last header, data := []\<rparr>) = Inr ?s"
    by (simp add: get_distinct_values_def column_Nil_all)
  have sub: "set (a # rest) \<subseteq> set header"
    using attrs by (metis filter_is_subset)
  have rem: "remaining_attributes acc ?s = a # rest"
    using fresh by (simp add: remaining_attributes_def)
  have "\<forall>b \<in> set (a # rest). distinct_values ?s b = Some []"
    using sub by auto
  from make_node_no_rows[OF rem this]
  have m: "make_node acc ?s [] None = Inr (DTree a False None (Some 0))" .
  have a: "a \<in> set header" using sub by simp
  have "create_tree acc (Suc limit) ?s None None None =
          Inr (link_node ?s (DTree a False None (Some 0)) None)"
    using m a by (simp add: frame_subset_def DTree_def)
  then show ?thesis
    using p g by (simp add: learn_def link_node_def DTree_def set_attributes_def)
qed

text \<open>C2, an instance: the header \<open>A, Y\<close> and no row.\<close>

theorem learn_on_no_rows_witness:
  "learn (\<lambda>store r. []) 1 init [[''A'', ''Y'']] =
     Inr \<lparr>attributes = [''A''], all_attributes = [''A'', ''Y''], dependent = ''Y'', data = [],
          distinct_values = (\<lambda>b. if b \<in> set [''A'', ''Y''] then Some [] else None),
          dtree = Some 0,
          nodes = [\<lparr>attribute = ''A'', leaf = False, parent_value = None,
                    gain_value = Some 0, known_attributes = Some [''A''], children = []\<rparr>]\<rparr>"
  using learn_on_no_rows[of init "[''A'', ''Y'']" "''A''" "[]" "\<lambda>store r. []" 0]
  by (simp add: init_def)

text \<open>
  C2 as stated fails on the header \<open>A, Y\<close> with no row: whatever \<open>DTree.attributes\<close> is,
  \<open>learn\<close> raises nothing and returns a tree of one internal node without children.
\<close>

theorem learn_on_no_rows_returns:
  "\<forall>acc. \<exists>self'. learn acc 1 init [[''A'', ''Y'']] = Inr self' \<and>
      map attribute (nodes self') = [''A''] \<and> map leaf (nodes self') = [False] \<and>
      map children (nodes self') = [[]]"
proof
  fix acc
  have "remaining_attributes acc
         (init\<lparr>attributes := [''A''], all_attributes := [''A'', ''Y''], dependent := ''Y'',
               data := [], distinct_values := [''A'' \<mapsto> [], ''Y'' \<mapsto> []]\<rparr>) = [''A'']"
    by (simp add: remaining_attributes_def init_def)
  then show "\<exists>self'. learn acc 1 init [[''A'', ''Y'']] = Inr self' \<and>
      map attribute (nodes self') = [''A''] \<and> map leaf (nodes self') = [False] \<and>
      map children (nodes self') = [[]]"
    by (simp add: learn_def parse_csv_def get_distinct_values_def make_node_def
        frame_subset_def attr_counts_def igains_of_no_rows information_gain_no_rows py_max_def
        link_node_def DTree_def set_attributes_def init_def)
qed

text \<open>
  C4 fails in the case it names: for a value of the domain with no matching row in
  the subset of an internal node, no child is made. Let a frame of \<open>create_tree\<close>, on a
  table all of whose attributes have a value, make an internal node, and let \<open>v\<close> be a
  value of the domain of the node's attribute that no row of the frame's subset has.
  Then the frame raises, whatever \<open>DTree.attributes\<close> and the recursion limit are: the
  loop of lines 79 to 84 calls \<open>create_tree\<close> for \<open>v\<close>, the filtered subset is empty, and
  there \<open>max\<close> is taken of an empty tally or a gain divides by the total 0. So a tree
  that \<open>learn\<close> returns has no internal node with such a value.
\<close>

theorem frame_raises_for_value_without_rows:
  assumes doms: "\<forall>a \<in> set (attributes self). \<exists>v vs. distinct_values self a = Some (v # vs)"
    and par: "\<forall>p. parent = Some p \<longrightarrow> p < length (nodes self)"
    and rows: "frame_subset self sub parent pv = Inr rows"
    and node: "make_node acc self rows pv = Inr node" "\<not> leaf node"
    and dom: "distinct_values self (attribute node) = Some vs"
    and v: "v \<in> set vs" "\<forall>r \<in> set rows. r (attribute node) \<noteq> Some v"
  shows "\<exists>e. create_tree acc limit self sub parent pv = Inl e"
proof (cases limit)
  case 0
  then show ?thesis by simp
next
  case (Suc n)
  let ?s = "link_node self node parent"
  let ?i = "length (nodes self)"
  from v(1) obtain before after where vs: "vs = before @ v # after" by (auto dest: split_list)
  have run: "create_tree acc limit self sub parent pv = create_tree_children acc n ?s rows ?i vs"
    using Suc rows node dom by simp
  show ?thesis
  proof (cases "create_tree_children acc n ?s rows ?i before")
    case (Inl e)
    then show ?thesis unfolding run vs create_tree_children_append by simp
  next
    case (Inr s')
    have i: "?i < length (nodes ?s)" by (simp add: length_link)
    with Inr have post: "children_post ?s ?i before s'" using create_tree_posts(2) by blast
    have new: "attribute (nodes ?s ! ?i) = attribute node"
      using link_new[OF par, of node] by (simp add: set_attributes_def split: option.splits)
    from post obtain cs where
      "nodes s' ! ?i = (nodes ?s ! ?i)\<lparr>children := children (nodes ?s ! ?i) @ cs\<rparr>"
      by (auto simp: children_post_def)
    with new have at: "attribute (nodes s' ! ?i) = attribute node" by simp
    from post have st: "same_table ?s s'" and len: "length (nodes ?s) \<le> length (nodes s')"
      by (simp_all add: children_post_def)
    have tab: "same_table self s'"
      using same_table_link[of self node parent] st by (rule same_table_trans)
    then have doms': "\<forall>a \<in> set (attributes s'). \<exists>v vs. distinct_values s' a = Some (v # vs)"
      using doms by (simp add: same_table_def)
    have "?i < length (nodes s')" using i len by simp
    moreover have "\<forall>r \<in> set rows. r (attribute (nodes s' ! ?i)) \<noteq> Some v" using v(2) at by simp
    ultimately obtain e where "create_tree acc n s' (Some rows) (Some ?i) (Some v) = Inl e"
      using create_tree_on_no_rows_raises[OF doms', of ?i rows v acc n] by blast
    with Inr show ?thesis unfolding run vs create_tree_children_append by simp
  qed
qed

text \<open>
  C4, an instance: in \<open>gap_table\<close> the frame for \<open>b3\<close> under the root finds the two rows of
  \<open>a2\<close> and, with \<open>DTree.attributes\<close> as the spec gives it, splits them on \<open>A\<close>; no row
  among them has \<open>a1\<close>.
\<close>

theorem frame_raises_for_value_without_rows_witness:
  "make_node own_attribute
     (gap_state [gap_root [Suc 0, 2], gap_leaf ''y'' ''b1'', gap_leaf ''n'' ''b2'']) gap_below
     (Some ''b3'') = Inr (DTree ''A'' False (Some ''b3'') (Some 0)) \<and>
   distinct_values gap_table ''A'' = Some [''a1'', ''a2''] \<and>
   filter_subset gap_below ''A'' (Some ''a1'') = Inr [] \<and>
   (\<exists>e. create_tree own_attribute 2
      (gap_state [gap_root [Suc 0, 2], gap_leaf ''y'' ''b1'', gap_leaf ''n'' ''b2''])
      (Some gap_rows) (Some 0) (Some ''b3'') = Inl e)"
proof -
  let ?ns = "[gap_root [Suc 0, 2], gap_leaf ''y'' ''b1'', gap_leaf ''n'' ''b2'']"
  have mk: "make_node own_attribute (gap_state ?ns) gap_below (Some ''b3'') =
      Inr (DTree ''A'' False (Some ''b3'') (Some 0))"
    by (rule gap_inner_node) (simp_all add: gap_root_def)
  have fs: "frame_subset (gap_state ?ns) (Some gap_rows) (Some 0) (Some ''b3'') = Inr gap_below"
    by (simp add: frame_subset_def gap_filter gap_root_def)
  have dv: "distinct_values (gap_state ?ns) (attribute (DTree ''A'' False (Some ''b3'') (Some 0))) =
      Some [''a1'', ''a2'']"
    by (simp add: gap_table_def DTree_def)
  have "\<exists>e. create_tree own_attribute 2 (gap_state ?ns) (Some gap_rows) (Some 0) (Some ''b3'') = Inl e"
    using frame_raises_for_value_without_rows[OF gap_doms _ fs mk _ dv, of "''a1''" 2]
    by (simp add: DTree_def gap_below_def)
  with mk show ?thesis by (simp add: gap_table_def gap_filter)
qed

text \<open>
  C4 on the table of \<open>gap_table\<close>, whatever \<open>DTree.attributes\<close> is: \<open>learn\<close> returns the tree
  in which the node for \<open>b3\<close> is a leaf, or it raises. In no run does the node for \<open>b3\<close>
  get a child for \<open>a1\<close>.
\<close>

theorem learn_makes_no_child_without_rows:
  "\<forall>acc.
     learn acc 3 init
       [[''A'', ''B'', ''Y''], [''a1'', ''b1'', ''y''], [''a1'', ''b2'', ''n''],
        [''a2'', ''b3'', ''y''], [''a2'', ''b3'', ''n'']] =
       Inr (gap_state [gap_root [1, 2, 3], gap_leaf ''y'' ''b1'', gap_leaf ''n'' ''b2'',
         gap_leaf ''y'' ''b3'']) \<or>
     learn acc 3 init
       [[''A'', ''B'', ''Y''], [''a1'', ''b1'', ''y''], [''a1'', ''b2'', ''n''],
        [''a2'', ''b3'', ''y''], [''a2'', ''b3'', ''n'']] = Inl ValueError \<or>
     learn acc 3 init
       [[''A'', ''B'', ''Y''], [''a1'', ''b1'', ''y''], [''a1'', ''b2'', ''n''],
        [''a2'', ''b3'', ''y''], [''a2'', ''b3'', ''n'']] = Inl ZeroDivisionError"
proof
  fix acc
  show "learn acc 3 init
       [[''A'', ''B'', ''Y''], [''a1'', ''b1'', ''y''], [''a1'', ''b2'', ''n''],
        [''a2'', ''b3'', ''y''], [''a2'', ''b3'', ''n'']] =
       Inr (gap_state [gap_root [1, 2, 3], gap_leaf ''y'' ''b1'', gap_leaf ''n'' ''b2'',
         gap_leaf ''y'' ''b3'']) \<or>
     learn acc 3 init
       [[''A'', ''B'', ''Y''], [''a1'', ''b1'', ''y''], [''a1'', ''b2'', ''n''],
        [''a2'', ''b3'', ''y''], [''a2'', ''b3'', ''n'']] = Inl ValueError \<or>
     learn acc 3 init
       [[''A'', ''B'', ''Y''], [''a1'', ''b1'', ''y''], [''a1'', ''b2'', ''n''],
        [''a2'', ''b3'', ''y''], [''a2'', ''b3'', ''n'']] = Inl ZeroDivisionError"
    using gap_run_any[of acc 0] gap_learn_any[of acc 0]
    by (simp add: numeral_3_eq_3 del: create_tree.simps)
qed





end
